theory Spec2Isabelle
  imports Complex_Main "HOL-Library.Log_Nat" "HOL-Library.Sublist"
begin

section \<open>Characters and strings\<close>

text \<open>
  Python's \<open>str\<close> is modelled by \<open>string\<close>; a \<open>char\<close> stands for a code point below 256.
  On that range \<open>\\d\<close> is the ten ASCII digits, \<open>\\s\<close> and \<open>str.strip\<close> use the same
  whitespace set, and \<open>re.IGNORECASE\<close> on the ASCII letters of the patterns compares
  lower-cased characters.
\<close>

definition is_digit :: "char \<Rightarrow> bool" where
  "is_digit c = (c \<in> set ''0123456789'')"

definition is_space :: "char \<Rightarrow> bool" where
  "is_space c = (c \<in> set [CHR 0x09, CHR 0x0A, CHR 0x0B, CHR 0x0C, CHR 0x0D,
                           CHR 0x1C, CHR 0x1D, CHR 0x1E, CHR 0x1F, CHR 0x20, CHR 0x85, CHR 0xA0])"

definition lower :: "char \<Rightarrow> char" where
  "lower c = (case map_of (zip ''ABCDEFGHIJKLMNOPQRSTUVWXYZ'' ''abcdefghijklmnopqrstuvwxyz'') c of
                Some l \<Rightarrow> l | None \<Rightarrow> c)"

definition strip :: "string \<Rightarrow> string" where
  "strip s = rev (dropWhile is_space (rev (dropWhile is_space s)))"

fun ci_prefix :: "string \<Rightarrow> string \<Rightarrow> bool" where
  "ci_prefix [] s = True"
| "ci_prefix (l # ls) [] = False"
| "ci_prefix (l # ls) (x # xs) = (lower x = lower l \<and> ci_prefix ls xs)"

section \<open>The backtracking matcher behind \<open>re.search\<close>\<close>

text \<open>
  Every pattern of the evaluators is built from: a literal, a character class, sequence,
  alternation, a greedy option, greedy and lazy repetition of a single character class,
  the capture group 1, a lookahead and \<open>$\<close>. The flags \<open>re.DOTALL | re.IGNORECASE\<close> are
  built in: \<open>AnyChar\<close> matches every character and literals compare case-insensitively.
\<close>

datatype cclass = Chr char | Digit | Space | AnyChar

fun cc_match :: "cclass \<Rightarrow> char \<Rightarrow> bool" where
  "cc_match (Chr l) x = (lower x = lower l)"
| "cc_match Digit x = is_digit x"
| "cc_match Space x = is_space x"
| "cc_match AnyChar x = True"

datatype regex =
    Str string
  | Atom cclass
  | Seq regex regex
  | Alt regex regex
  | Opt regex
  | Star cclass
  | Lazy cclass
  | Plus cclass
  | Group regex
  | Look regex
  | Eos

type_synonym cap = "string option"
type_synonym cont = "string \<Rightarrow> cap \<Rightarrow> cap option"

text \<open>
  The matcher is written with continuations: \<open>k\<close> is the rest of the pattern, applied to
  the text not yet consumed and to the capture. The first alternative that makes the whole
  rest succeed wins, which is the priority order of Python's backtracking.
\<close>

fun greedy :: "(char \<Rightarrow> bool) \<Rightarrow> cont \<Rightarrow> string \<Rightarrow> cap \<Rightarrow> cap option" where
  "greedy p k [] c = k [] c"
| "greedy p k (x # xs) c =
     (if p x then (case greedy p k xs c of Some r \<Rightarrow> Some r | None \<Rightarrow> k (x # xs) c)
      else k (x # xs) c)"

fun lazy :: "(char \<Rightarrow> bool) \<Rightarrow> cont \<Rightarrow> string \<Rightarrow> cap \<Rightarrow> cap option" where
  "lazy p k [] c = k [] c"
| "lazy p k (x # xs) c =
     (case k (x # xs) c of Some r \<Rightarrow> Some r
      | None \<Rightarrow> if p x then lazy p k xs c else None)"

definition accept :: cont where
  "accept s c = Some c"

primrec rmatch :: "regex \<Rightarrow> cont \<Rightarrow> string \<Rightarrow> cap \<Rightarrow> cap option" where
  "rmatch (Str l) k s c = (if ci_prefix l s then k (drop (length l) s) c else None)"
| "rmatch (Atom a) k s c =
     (case s of [] \<Rightarrow> None | x # xs \<Rightarrow> if cc_match a x then k xs c else None)"
| "rmatch (Seq a b) k s c = rmatch a (rmatch b k) s c"
| "rmatch (Alt a b) k s c =
     (case rmatch a k s c of Some r \<Rightarrow> Some r | None \<Rightarrow> rmatch b k s c)"
| "rmatch (Opt a) k s c =
     (case rmatch a k s c of Some r \<Rightarrow> Some r | None \<Rightarrow> k s c)"
| "rmatch (Star a) k s c = greedy (cc_match a) k s c"
| "rmatch (Lazy a) k s c = lazy (cc_match a) k s c"
| "rmatch (Plus a) k s c =
     (case s of [] \<Rightarrow> None
      | x # xs \<Rightarrow> if cc_match a x then greedy (cc_match a) k xs c else None)"
| "rmatch (Group a) k s c =
     rmatch a (\<lambda>s' c'. k s' (Some (take (length s - length s') s))) s c"
| "rmatch (Look a) k s c =
     (case rmatch a accept s c of Some r \<Rightarrow> k s c | None \<Rightarrow> None)"
| "rmatch Eos k s c = (if s = [] \<or> s = [CHR 0x0A] then k s c else None)"

text \<open>\<open>re.search\<close>: the leftmost start position at which the pattern matches.\<close>

fun search :: "regex \<Rightarrow> string \<Rightarrow> cap option" where
  "search r [] = rmatch r accept [] None"
| "search r (x # xs) =
     (case rmatch r accept (x # xs) None of Some c \<Rightarrow> Some c | None \<Rightarrow> search r xs)"

section \<open>The patterns of \<open>parse_evaluation\<close>\<close>

text \<open>
  Ollama and GPT-4o-mini evaluators (the two pattern tables are the same text):
  \<^verbatim>\<open>LABEL:?\s*(?:\*|\#)?\s*(\d+(?:\.\d+)?)\<close> for a score and
  \<^verbatim>\<open>LABEL:.*?(?:Reason|Explanation):\s*(.*?)(?=TERMINATOR)\<close> for a reason.
\<close>

definition number :: regex where
  "number = Seq (Plus Digit) (Opt (Seq (Atom (Chr CHR ''.'')) (Plus Digit)))"

definition score_pattern :: "string \<Rightarrow> regex" where
  "score_pattern label =
     Seq (Str label) (Seq (Opt (Atom (Chr CHR '':'')))
       (Seq (Star Space) (Seq (Opt (Alt (Atom (Chr CHR ''*'')) (Atom (Chr CHR ''#''))))
         (Seq (Star Space) (Group number)))))"

definition reason_pattern :: "string \<Rightarrow> regex \<Rightarrow> regex" where
  "reason_pattern label terminator =
     Seq (Str (label @ '':'')) (Seq (Lazy AnyChar)
       (Seq (Alt (Str ''Reason'') (Str ''Explanation'')) (Seq (Atom (Chr CHR '':''))
         (Seq (Star Space) (Seq (Group (Lazy AnyChar)) (Look terminator))))))"

definition newlines :: regex where
  "newlines = Star (Chr (CHR 0x0A))"

definition authenticity_end :: regex where
  "authenticity_end = Seq newlines (Alt (Str ''SENSITIVITY'') (Alt (Str ''HARMONY'') Eos))"

definition sensitivity_end :: regex where
  "sensitivity_end = Seq newlines (Alt (Str ''HARMONY'') Eos)"

definition harmony_end :: regex where
  "harmony_end = Eos"

text \<open>
  Gemini evaluator: \<^verbatim>\<open>LABEL:?\s*(\d+)\<close> for a score,
  \<^verbatim>\<open>LABEL.*?(?:Reason):\s*(.*?)(?=\n*NEXT)\<close> for the first two reasons and
  \<^verbatim>\<open>HARMONY.*?(?:Reason):\s*(.*)\<close> for the last.
\<close>

definition gemini_score_pattern :: "string \<Rightarrow> regex" where
  "gemini_score_pattern label =
     Seq (Str label) (Seq (Opt (Atom (Chr CHR '':''))) (Seq (Star Space) (Group (Plus Digit))))"

definition gemini_reason_pattern :: "string \<Rightarrow> string \<Rightarrow> regex" where
  "gemini_reason_pattern label nxt =
     Seq (Str label) (Seq (Lazy AnyChar) (Seq (Str ''Reason'') (Seq (Atom (Chr CHR '':''))
       (Seq (Star Space) (Seq (Group (Lazy AnyChar)) (Look (Seq newlines (Str nxt))))))))"

definition gemini_last_reason_pattern :: "string \<Rightarrow> regex" where
  "gemini_last_reason_pattern label =
     Seq (Str label) (Seq (Lazy AnyChar) (Seq (Str ''Reason'') (Seq (Atom (Chr CHR '':''))
       (Seq (Star Space) (Group (Star AnyChar))))))"

section \<open>Python's \<open>float\<close> on the strings the evaluators pass to it\<close>

text \<open>
  A score is a Python float. Only non-negative decimal literals are ever converted, so a
  float is a non-negative rational or \<open>inf\<close> (a literal of 310 digits overflows). The
  conversion rounds the exact decimal value to the nearest binary64 number, ties to even.
\<close>

datatype pyfloat = Fin rat | PosInf

fun flt :: "pyfloat \<Rightarrow> pyfloat \<Rightarrow> bool" where
  "flt (Fin a) (Fin b) = (a < b)"
| "flt (Fin a) PosInf = True"
| "flt PosInf b = False"

definition fle :: "pyfloat \<Rightarrow> pyfloat \<Rightarrow> bool" where
  "fle a b = (a = b \<or> flt a b)"

definition at_least_pow2 :: "int \<Rightarrow> int \<Rightarrow> int \<Rightarrow> bool" where
  "at_least_pow2 n d e = (if 0 \<le> e then d * 2 ^ nat e \<le> n else d \<le> n * 2 ^ nat (- e))"

definition round_half_even :: "int \<Rightarrow> int \<Rightarrow> int" where
  "round_half_even n d =
     (let q = n div d; r = n mod d
      in if 2 * r < d then q else if d < 2 * r then q + 1 else if even q then q else q + 1)"

text \<open>
  \<open>to_double n d\<close> is the binary64 number nearest to \<open>n / d\<close>, for \<open>0 \<le> n\<close> and \<open>0 < d\<close>:
  \<open>e\<close> is the binary exponent of \<open>n / d\<close>, \<open>p\<close> the exponent of the last place of the
  53-bit significand (not below that of the subnormal numbers).
\<close>

definition to_double :: "int \<Rightarrow> int \<Rightarrow> pyfloat" where
  "to_double n d =
     (if n = 0 then Fin 0
      else let e0 = bitlen n - bitlen d;
               e = (if at_least_pow2 n d e0 then e0 else e0 - 1);
               p = max (e - 52) (- 1074)
           in if 0 \<le> p
              then (let v = round_half_even n (d * 2 ^ nat p) * 2 ^ nat p
                    in if 2 ^ 1024 \<le> v then PosInf else Fin (of_int v))
              else Fin (of_int (round_half_even (n * 2 ^ nat (- p)) d) / of_int (2 ^ nat (- p))))"

definition digit_value :: "char \<Rightarrow> int" where
  "digit_value c = of_char c - 48"

definition int_of_digits :: "string \<Rightarrow> int" where
  "int_of_digits ds = foldl (\<lambda>a c. 10 * a + digit_value c) 0 ds"

text \<open>
  \<open>py_float\<close> is \<open>float(s)\<close> for a string \<open>s\<close> of digits and dots, \<open>None\<close> standing for
  \<open>ValueError\<close>: Python accepts \<open>12\<close>, \<open>12.\<close>, \<open>12.5\<close> and \<open>.5\<close>, and rejects the empty string,
  a lone dot and two dots.
\<close>

definition py_float :: "string \<Rightarrow> pyfloat option" where
  "py_float s =
     (let ip = takeWhile is_digit s
      in case dropWhile is_digit s of
           [] \<Rightarrow> if ip = [] then None else Some (to_double (int_of_digits ip) 1)
         | c # fp \<Rightarrow>
             if c = CHR ''.'' \<and> list_all is_digit fp \<and> (ip \<noteq> [] \<or> fp \<noteq> [])
             then Some (to_double (int_of_digits (ip @ fp)) (10 ^ length fp))
             else None)"

section \<open>\<open>parse_evaluation\<close>\<close>

record 's parsed =
  authenticity_score :: "'s option"
  authenticity_reason :: "string option"
  sensitivity_score :: "'s option"
  sensitivity_reason :: "string option"
  harmony_score :: "'s option"
  harmony_reason :: "string option"

text \<open>
  \<open>match.group(1).strip()\<close>. Group 1 lies on the mandatory path of every pattern, so a
  match always sets it (\<open>group1\<close> never meets \<open>Some None\<close>, where Python would raise).
\<close>

definition group1 :: "regex \<Rightarrow> string \<Rightarrow> string option" where
  "group1 r t = (case search r t of None \<Rightarrow> None | Some None \<Rightarrow> None | Some (Some g) \<Rightarrow> Some (strip g))"

text \<open>\<open>re.sub(r'[^\d.]', '', value)\<close> followed by \<open>float(value)\<close>.\<close>

definition clean :: "string \<Rightarrow> string" where
  "clean v = filter (\<lambda>c. is_digit c \<or> c = CHR ''.'') v"

definition coerce_score :: "string \<Rightarrow> pyfloat option" where
  "coerce_score v = py_float (clean v)"

definition score_field :: "regex \<Rightarrow> string \<Rightarrow> pyfloat option" where
  "score_field r t = (case group1 r t of None \<Rightarrow> None | Some v \<Rightarrow> coerce_score v)"

definition parse_evaluation :: "string \<Rightarrow> pyfloat parsed" where
  "parse_evaluation t =
     \<lparr> authenticity_score = score_field (score_pattern ''AUTHENTICITY'') t,
       authenticity_reason = group1 (reason_pattern ''AUTHENTICITY'' authenticity_end) t,
       sensitivity_score = score_field (score_pattern ''SENSITIVITY'') t,
       sensitivity_reason = group1 (reason_pattern ''SENSITIVITY'' sensitivity_end) t,
       harmony_score = score_field (score_pattern ''HARMONY'') t,
       harmony_reason = group1 (reason_pattern ''HARMONY'' harmony_end) t \<rparr>"

text \<open>The Gemini evaluator keeps the captured score as a string.\<close>

definition gemini_parse_evaluation :: "string \<Rightarrow> string parsed" where
  "gemini_parse_evaluation t =
     \<lparr> authenticity_score = group1 (gemini_score_pattern ''AUTHENTICITY'') t,
       authenticity_reason = group1 (gemini_reason_pattern ''AUTHENTICITY'' ''SENSITIVITY'') t,
       sensitivity_score = group1 (gemini_score_pattern ''SENSITIVITY'') t,
       sensitivity_reason = group1 (gemini_reason_pattern ''SENSITIVITY'' ''HARMONY'') t,
       harmony_score = group1 (gemini_score_pattern ''HARMONY'') t,
       harmony_reason = group1 (gemini_last_reason_pattern ''HARMONY'') t \<rparr>"

section \<open>\<open>validate_and_fix_scores\<close>\<close>

text \<open>
  \<open>re.search(r'\d+(?:\.\d+)?', text)\<close> and \<open>match.group()\<close>: the whole match is read as the
  capture of a group around the whole pattern.
\<close>

definition first_number :: "string \<Rightarrow> string option" where
  "first_number text = (case search (Group number) text of Some (Some g) \<Rightarrow> Some g | _ \<Rightarrow> None)"

definition in_range :: "pyfloat \<Rightarrow> bool" where
  "in_range v = (fle (Fin 1) v \<and> fle v (Fin 5))"

definition rescue :: "string option \<Rightarrow> pyfloat option" where
  "rescue reason =
     (case reason of
        None \<Rightarrow> None
      | Some text \<Rightarrow>
          if text = [] then None
          else (case first_number text of
                  None \<Rightarrow> None
                | Some tok \<Rightarrow>
                    (case py_float tok of
                       None \<Rightarrow> None
                     | Some v \<Rightarrow> if in_range v then Some v else None)))"

definition needs_fix :: "pyfloat option \<Rightarrow> bool" where
  "needs_fix score = (case score of None \<Rightarrow> True | Some v \<Rightarrow> flt v (Fin 1) \<or> flt (Fin 5) v)"

datatype criterion = Authenticity | Sensitivity | Harmony

fun get_score :: "criterion \<Rightarrow> 's parsed \<Rightarrow> 's option" where
  "get_score Authenticity e = authenticity_score e"
| "get_score Sensitivity e = sensitivity_score e"
| "get_score Harmony e = harmony_score e"

fun get_reason :: "criterion \<Rightarrow> 's parsed \<Rightarrow> string option" where
  "get_reason Authenticity e = authenticity_reason e"
| "get_reason Sensitivity e = sensitivity_reason e"
| "get_reason Harmony e = harmony_reason e"

fun set_score :: "criterion \<Rightarrow> 's option \<Rightarrow> 's parsed \<Rightarrow> 's parsed" where
  "set_score Authenticity v e = e\<lparr>authenticity_score := v\<rparr>"
| "set_score Sensitivity v e = e\<lparr>sensitivity_score := v\<rparr>"
| "set_score Harmony v e = e\<lparr>harmony_score := v\<rparr>"

definition fix_key :: "pyfloat parsed \<Rightarrow> criterion \<Rightarrow> pyfloat parsed" where
  "fix_key e k =
     (if needs_fix (get_score k e) then set_score k (rescue (get_reason k e)) e else e)"

definition validate_and_fix_scores :: "pyfloat parsed \<Rightarrow> pyfloat parsed" where
  "validate_and_fix_scores e = foldl fix_key e [Authenticity, Sensitivity, Harmony]"

section \<open>The evaluation loops\<close>

text \<open>
  An input row carries the three columns the evaluators read and the columns they pass
  through. The text-generation collaborator is outside the program: it is a function of
  the number of calls made so far, the evaluator model and the row (the prompt is a fixed
  template around the row's fields), and it either returns a text or raises an exception,
  given with its message \<open>str(e)\<close>.
\<close>

record recipe_row =
  original_dish :: string
  variation :: string
  generated_recipe :: string
  passthrough :: "(string \<times> string) list"

datatype failure = ApiError string | OtherError string

fun message :: "failure \<Rightarrow> string" where
  "message (ApiError m) = m"
| "message (OtherError m) = m"

type_synonym collaborator = "nat \<Rightarrow> string \<Rightarrow> recipe_row \<Rightarrow> failure + string"

record 's result_row =
  source_row :: recipe_row
  evaluator_model :: "string option"
  iteration :: "nat option"
  evaluation :: string
  scores :: "'s parsed"

definition model_names :: "string list" where
  "model_names = [''gemma2:2b'', ''gemma2:9b'', ''mistral:7b'', ''llama2:13b'', ''llama3.1:8b'']"

text \<open>\<open>evaluate_recipe\<close> of the three evaluators: the \<open>try\<close> around the call.\<close>

definition evaluate_recipe :: "collaborator \<Rightarrow> nat \<Rightarrow> string \<Rightarrow> recipe_row \<Rightarrow> string" where
  "evaluate_recipe llm n model_name row =
     (case llm n model_name row of Inr text \<Rightarrow> text | Inl e \<Rightarrow> ''Error: '' @ message e)"

definition gemini_evaluate_recipe :: "collaborator \<Rightarrow> nat \<Rightarrow> recipe_row \<Rightarrow> string" where
  "gemini_evaluate_recipe llm n row =
     (case llm n ''gemini-1.5-flash'' row of
        Inr text \<Rightarrow> text | Inl e \<Rightarrow> ''Error in evaluation: '' @ message e)"

definition gpt_evaluate_recipe :: "collaborator \<Rightarrow> nat \<Rightarrow> recipe_row \<Rightarrow> string" where
  "gpt_evaluate_recipe llm n row =
     (case llm n ''gpt-4o-mini'' row of
        Inr text \<Rightarrow> text
      | Inl (ApiError m) \<Rightarrow> ''Error in evaluation: '' @ m
      | Inl (OtherError m) \<Rightarrow> ''Unexpected error in evaluation: '' @ m)"

text \<open>
  The loops thread the number of calls made and the list \<open>results\<close>. The Ollama evaluator
  runs over rows, \<open>self.model_names\<close> and \<open>range(1, 6)\<close>.
\<close>

type_synonym 's run = "nat \<times> 's result_row list"

definition evaluate_iteration ::
  "collaborator \<Rightarrow> recipe_row \<Rightarrow> string \<Rightarrow> pyfloat run \<Rightarrow> nat \<Rightarrow> pyfloat run" where
  "evaluate_iteration llm row model_name st i =
     (let text = evaluate_recipe llm (fst st) model_name row;
          parsed_evaluation = validate_and_fix_scores (parse_evaluation text);
          new_row = \<lparr> source_row = row, evaluator_model = Some model_name, iteration = Some i,
                      evaluation = text, scores = parsed_evaluation \<rparr>
      in (Suc (fst st), snd st @ [new_row]))"

definition evaluate_model :: "collaborator \<Rightarrow> recipe_row \<Rightarrow> pyfloat run \<Rightarrow> string \<Rightarrow> pyfloat run" where
  "evaluate_model llm row st model_name = foldl (evaluate_iteration llm row model_name) st [1..<6]"

definition evaluate_row :: "string list \<Rightarrow> collaborator \<Rightarrow> pyfloat run \<Rightarrow> recipe_row \<Rightarrow> pyfloat run" where
  "evaluate_row models llm st row = foldl (evaluate_model llm row) st models"

definition evaluate_recipes :: "string list \<Rightarrow> collaborator \<Rightarrow> recipe_row list \<Rightarrow> pyfloat result_row list" where
  "evaluate_recipes models llm rows = snd (foldl (evaluate_row models llm) (0, []) rows)"

text \<open>The Gemini evaluator: rows and \<open>range(1, 6)\<close>, one fixed model, no validation pass.\<close>

definition gemini_evaluate_iteration ::
  "collaborator \<Rightarrow> recipe_row \<Rightarrow> string run \<Rightarrow> nat \<Rightarrow> string run" where
  "gemini_evaluate_iteration llm row st i =
     (let text = gemini_evaluate_recipe llm (fst st) row;
          parsed_evaluation = gemini_parse_evaluation text;
          row_copy = \<lparr> source_row = row, evaluator_model = Some ''gemini-1.5-flash'',
                       iteration = Some i, evaluation = text, scores = parsed_evaluation \<rparr>
      in (Suc (fst st), snd st @ [row_copy]))"

definition gemini_evaluate_row :: "collaborator \<Rightarrow> string run \<Rightarrow> recipe_row \<Rightarrow> string run" where
  "gemini_evaluate_row llm st row = foldl (gemini_evaluate_iteration llm row) st [1..<6]"

definition gemini_evaluate_recipes :: "collaborator \<Rightarrow> recipe_row list \<Rightarrow> string result_row list" where
  "gemini_evaluate_recipes llm rows = snd (foldl (gemini_evaluate_row llm) (0, []) rows)"

text \<open>The GPT-4o-mini evaluator: one evaluation for each row.\<close>

definition gpt_evaluate_row :: "collaborator \<Rightarrow> pyfloat run \<Rightarrow> recipe_row \<Rightarrow> pyfloat run" where
  "gpt_evaluate_row llm st row =
     (let text = gpt_evaluate_recipe llm (fst st) row;
          parsed_evaluation = validate_and_fix_scores (parse_evaluation text);
          new_row = \<lparr> source_row = row, evaluator_model = None, iteration = None,
                      evaluation = text, scores = parsed_evaluation \<rparr>
      in (Suc (fst st), snd st @ [new_row]))"

definition gpt_evaluate_recipes :: "collaborator \<Rightarrow> recipe_row list \<Rightarrow> pyfloat result_row list" where
  "gpt_evaluate_recipes llm rows = snd (foldl (gpt_evaluate_row llm) (0, []) rows)"

text \<open>Collaborators and a row used to run the loops on concrete inputs.\<close>

definition always_returns :: "string \<Rightarrow> collaborator" where
  "always_returns text n model_name row = Inr text"

definition always_raises :: "string \<Rightarrow> collaborator" where
  "always_raises msg n model_name row = Inl (OtherError msg)"

definition sample_row :: recipe_row where
  "sample_row = \<lparr> original_dish = ''Bibimbap'', variation = ''Halal'',
                   generated_recipe = ''Rice with vegetables'', passthrough = [] \<rparr>"

section \<open>What the claims speak about\<close>

definition valid_score :: "pyfloat option \<Rightarrow> bool" where
  "valid_score s = (case s of None \<Rightarrow> True | Some (Fin q) \<Rightarrow> 1 \<le> q \<and> q \<le> 5 | Some PosInf \<Rightarrow> False)"

definition valid_scores :: "pyfloat parsed \<Rightarrow> bool" where
  "valid_scores e = (valid_score (authenticity_score e) \<and> valid_score (sensitivity_score e)
                     \<and> valid_score (harmony_score e))"

text \<open>A label occurs in a text, in any letter case.\<close>

fun ci_occurs :: "string \<Rightarrow> string \<Rightarrow> bool" where
  "ci_occurs l [] = ci_prefix l []"
| "ci_occurs l (x # xs) = (ci_prefix l (x # xs) \<or> ci_occurs l xs)"

text \<open>What one pass of the validator's loop leaves in a score field.\<close>

definition fixed :: "pyfloat option \<Rightarrow> string option \<Rightarrow> pyfloat option" where
  "fixed s r = (if needs_fix s then rescue r else s)"

text \<open>The (recipe, evaluator model, iteration) triple of a record.\<close>

definition triple :: "'s result_row \<Rightarrow> recipe_row \<times> string option \<times> nat option" where
  "triple r = (source_row r, evaluator_model r, iteration r)"

definition all_valid :: "pyfloat run \<Rightarrow> bool" where
  "all_valid st = list_all (\<lambda>r. valid_scores (scores r)) (snd st)"

text \<open>The shape of a numeric token.\<close>

definition digits :: "string \<Rightarrow> bool" where
  "digits u = (u \<noteq> [] \<and> (\<forall>x \<in> set u. is_digit x))"

definition numeric_token :: "string \<Rightarrow> bool" where
  "numeric_token g =
     (case dropWhile is_digit g of
        [] \<Rightarrow> g \<noteq> []
      | c # fp \<Rightarrow> takeWhile is_digit g \<noteq> [] \<and> c = CHR ''.'' \<and> fp \<noteq> [] \<and> list_all is_digit fp)"

text \<open>
  The first numeric token of a text, read off the text directly: skip to the first digit,
  take the digits, and take a decimal part when a dot and a digit follow.
\<close>

definition first_numeric_token :: "string \<Rightarrow> string option" where
  "first_numeric_token text =
     (let rest = dropWhile (\<lambda>c. \<not> is_digit c) text;
          ip = takeWhile is_digit rest;
          after = dropWhile is_digit rest
      in if ip = [] then None
         else (case after of
                 c # d # zs \<Rightarrow>
                   if c = CHR ''.'' \<and> is_digit d then Some (ip @ c # takeWhile is_digit (d # zs))
                   else Some ip
               | _ \<Rightarrow> Some ip))"

text \<open>The continuation a capture group leaves for its body.\<close>

definition capture_to :: "string \<Rightarrow> cont" where
  "capture_to s s' c' = accept s' (Some (take (length s - length s') s))"

definition sample_parsed :: "pyfloat parsed" where
  "sample_parsed =
     \<lparr> authenticity_score = None,
       authenticity_reason = Some (''I'' @ [CHR 0x27] @ ''d give this a 3 for authenticity''),
       sensitivity_score = Some (Fin 7),
       sensitivity_reason = Some ''Far too sweet: 15 of 20 tasters disliked it'',
       harmony_score = Some (Fin 4),
       harmony_reason = None \<rparr>"

text \<open>The record with six null fields.\<close>

definition null_parsed :: "'s parsed" where
  "null_parsed =
     \<lparr> authenticity_score = None, authenticity_reason = None,
       sensitivity_score = None, sensitivity_reason = None,
       harmony_score = None, harmony_reason = None \<rparr>"

text \<open>The label of a criterion, and the patterns that belong to it.\<close>

fun label_of :: "criterion \<Rightarrow> string" where
  "label_of Authenticity = ''AUTHENTICITY''"
| "label_of Sensitivity = ''SENSITIVITY''"
| "label_of Harmony = ''HARMONY''"

fun ending :: "criterion \<Rightarrow> regex" where
  "ending Authenticity = authenticity_end"
| "ending Sensitivity = sensitivity_end"
| "ending Harmony = harmony_end"

fun gemini_reason_of :: "criterion \<Rightarrow> regex" where
  "gemini_reason_of Authenticity = gemini_reason_pattern ''AUTHENTICITY'' ''SENSITIVITY''"
| "gemini_reason_of Sensitivity = gemini_reason_pattern ''SENSITIVITY'' ''HARMONY''"
| "gemini_reason_of Harmony = gemini_last_reason_pattern ''HARMONY''"

text \<open>
  Record \<open>r\<close> is the outcome of call number \<open>n\<close>: its text is what \<open>evaluate_recipe\<close>
  returned for that call, and its fields are that text parsed and validated.
\<close>

definition recorded :: "collaborator \<Rightarrow> nat \<Rightarrow> pyfloat result_row \<Rightarrow> bool" where
  "recorded llm n r =
     (case evaluator_model r of
        None \<Rightarrow> False
      | Some m \<Rightarrow> evaluation r = evaluate_recipe llm n m (source_row r)
                 \<and> scores r = validate_and_fix_scores (parse_evaluation (evaluation r)))"

definition calls_recorded :: "collaborator \<Rightarrow> pyfloat run \<Rightarrow> bool" where
  "calls_recorded llm st =
     (fst st = length (snd st) \<and> (\<forall>n < length (snd st). recorded llm n (snd st ! n)))"

text \<open>Sample inputs.\<close>

definition one_label_text :: string where
  "one_label_text = ''SENSITIVITY: 2'' @ [CHR 0x0A] @ ''Reason: weak.''"




text \<open>
  A label occurs, in any letter case, at a position inside \<open>p\<close> of the text \<open>p @ v\<close>.
\<close>

fun starts_in :: "string \<Rightarrow> string \<Rightarrow> string \<Rightarrow> bool" where
  "starts_in l [] v = False"
| "starts_in l (x # xs) v = (ci_prefix l (x # xs @ v) \<or> starts_in l xs v)"


definition plain :: "char \<Rightarrow> bool" where
  "plain x = (is_space x \<or> is_digit x \<or> x = CHR '':'')"

section \<open>Properties\<close>

lemma in_range_iff: "in_range v \<longleftrightarrow> (\<exists>q. v = Fin q \<and> 1 \<le> q \<and> q \<le> 5)"
  by (cases v) (auto simp: in_range_def fle_def)

lemma in_range_no_fix: "in_range v \<Longrightarrow> \<not> needs_fix (Some v)"
  by (cases v) (auto simp: in_range_def fle_def needs_fix_def)

lemma no_fix_valid: "\<not> needs_fix s \<Longrightarrow> valid_score s"
  by (auto simp: needs_fix_def valid_score_def split: option.splits pyfloat.splits)

lemma rescue_cases: "rescue r = None \<or> (\<exists>v. rescue r = Some v \<and> in_range v)"
  by (auto simp: rescue_def split: option.splits)

lemma rescue_valid: "valid_score (rescue r)"
  using rescue_cases [of r] by (auto simp: valid_score_def in_range_iff)

lemma validate_fields:
  "validate_and_fix_scores e =
     e\<lparr> authenticity_score := fixed (authenticity_score e) (authenticity_reason e),
        sensitivity_score := fixed (sensitivity_score e) (sensitivity_reason e),
        harmony_score := fixed (harmony_score e) (harmony_reason e) \<rparr>"
  by (simp add: validate_and_fix_scores_def fix_key_def fixed_def)

lemma fixed_valid: "valid_score (fixed s r)"
  by (simp add: fixed_def rescue_valid no_fix_valid)

lemma fixed_idem: "fixed (fixed s r) r = fixed s r"
  using rescue_cases [of r] by (auto simp: fixed_def in_range_no_fix)

text \<open>
  C5. The validator is idempotent: validating an already validated record changes nothing.
\<close>

theorem validate_idempotent: "validate_and_fix_scores (validate_and_fix_scores e) = validate_and_fix_scores e"
  by (simp add: validate_fields fixed_idem)

lemma validate_valid: "valid_scores (validate_and_fix_scores e)"
  by (simp add: validate_fields valid_scores_def fixed_valid)

lemma foldl_invariant:
  "(\<And>st x. I st \<Longrightarrow> I (f st x)) \<Longrightarrow> I st \<Longrightarrow> I (foldl f st xs)"
  by (induction xs arbitrary: st) auto

lemma foldl_triples:
  assumes "\<And>st x. map triple (snd (f st x)) = map triple (snd st) @ h x"
  shows "map triple (snd (foldl f st xs)) = map triple (snd st) @ concat (map h xs)"
  using assms by (induction xs arbitrary: st) auto

lemma iteration_triples:
  "map triple (snd (evaluate_iteration llm row m st i)) = map triple (snd st) @ [(row, Some m, Some i)]"
  by (simp add: evaluate_iteration_def Let_def triple_def)

lemma model_triples:
  "map triple (snd (evaluate_model llm row st m)) =
     map triple (snd st) @ concat (map (\<lambda>i. [(row, Some m, Some i)]) [1..<6])"
  unfolding evaluate_model_def by (rule foldl_triples) (rule iteration_triples)

lemma row_triples:
  "map triple (snd (evaluate_row models llm st row)) =
     map triple (snd st) @ concat (map (\<lambda>m. concat (map (\<lambda>i. [(row, Some m, Some i)]) [1..<6])) models)"
  unfolding evaluate_row_def by (rule foldl_triples) (rule model_triples)

lemma recipes_triples:
  "map triple (evaluate_recipes models llm rows) =
     concat (map (\<lambda>row. concat (map (\<lambda>m. concat (map (\<lambda>i. [(row, Some m, Some i)]) [1..<6])) models)) rows)"
  unfolding evaluate_recipes_def using foldl_triples [of "evaluate_row models llm", OF row_triples, of "(0, [])" rows]
  by simp

lemma gemini_iteration_triples:
  "map triple (snd (gemini_evaluate_iteration llm row st i)) =
     map triple (snd st) @ [(row, Some ''gemini-1.5-flash'', Some i)]"
  by (simp add: gemini_evaluate_iteration_def Let_def triple_def)

lemma gemini_row_triples:
  "map triple (snd (gemini_evaluate_row llm st row)) =
     map triple (snd st) @ concat (map (\<lambda>i. [(row, Some ''gemini-1.5-flash'', Some i)]) [1..<6])"
  unfolding gemini_evaluate_row_def by (rule foldl_triples) (rule gemini_iteration_triples)

lemma gemini_recipes_triples:
  "map triple (gemini_evaluate_recipes llm rows) =
     concat (map (\<lambda>row. concat (map (\<lambda>i. [(row, Some ''gemini-1.5-flash'', Some i)]) [1..<6])) rows)"
  unfolding gemini_evaluate_recipes_def
  using foldl_triples [of "gemini_evaluate_row llm", OF gemini_row_triples, of "(0, [])" rows]
  by simp

lemma length_concat_const:
  "(\<And>x. length (f x) = n) \<Longrightarrow> length (concat (map f xs)) = length xs * n"
  by (induction xs) auto

lemma upt_1_6: "[Suc 0..<6] = [1, 2, 3, 4, 5]"
  by (simp add: upt_rec)

text \<open>
  C8. The Ollama evaluator appends one record for each (recipe, evaluator model, iteration)
  triple, in loop order, with the iterations 1 to 5: for \<open>R\<close> rows and \<open>M\<close> models that is
  \<open>R * M * 5\<close> records. The Gemini evaluator has its one model and appends \<open>R * 1 * 5\<close>.
\<close>

theorem one_record_per_triple:
  "map triple (evaluate_recipes models llm rows) =
     concat (map (\<lambda>row. concat (map (\<lambda>m. map (\<lambda>i. (row, Some m, Some i)) [1, 2, 3, 4, 5]) models)) rows)
   \<and> length (evaluate_recipes models llm rows) = length rows * length models * 5
   \<and> map triple (gemini_evaluate_recipes llm rows) =
     concat (map (\<lambda>row. map (\<lambda>i. (row, Some ''gemini-1.5-flash'', Some i)) [1, 2, 3, 4, 5]) rows)
   \<and> length (gemini_evaluate_recipes llm rows) = length rows * 1 * 5"
proof -
  have a: "map triple (evaluate_recipes models llm rows) =
     concat (map (\<lambda>row. concat (map (\<lambda>m. map (\<lambda>i. (row, Some m, Some i)) [1, 2, 3, 4, 5]) models)) rows)"
    by (simp add: recipes_triples upt_1_6)
  have "length (map triple (evaluate_recipes models llm rows)) = length rows * (length models * 5)"
    unfolding a by (rule length_concat_const) (simp add: length_concat_const)
  then have b: "length (evaluate_recipes models llm rows) = length rows * length models * 5"
    by simp
  have c: "map triple (gemini_evaluate_recipes llm rows) =
     concat (map (\<lambda>row. map (\<lambda>i. (row, Some ''gemini-1.5-flash'', Some i)) [1, 2, 3, 4, 5]) rows)"
    by (simp add: gemini_recipes_triples upt_1_6)
  have "length (map triple (gemini_evaluate_recipes llm rows)) = length rows * 5"
    unfolding c by (rule length_concat_const) simp
  then have d: "length (gemini_evaluate_recipes llm rows) = length rows * 1 * 5"
    by simp
  from a b c d show ?thesis by blast
qed

lemma iteration_valid: "all_valid st \<Longrightarrow> all_valid (evaluate_iteration llm row m st i)"
  by (simp add: all_valid_def evaluate_iteration_def Let_def validate_valid)

lemma model_valid: "all_valid st \<Longrightarrow> all_valid (evaluate_model llm row st m)"
  unfolding evaluate_model_def
  by (rule foldl_invariant [where I = all_valid]) (simp_all add: iteration_valid)

lemma row_valid: "all_valid st \<Longrightarrow> all_valid (evaluate_row models llm st row)"
  unfolding evaluate_row_def
  by (rule foldl_invariant [where I = all_valid]) (simp_all add: model_valid)

lemma recipes_valid: "list_all (\<lambda>r. valid_scores (scores r)) (evaluate_recipes models llm rows)"
proof -
  have "all_valid (foldl (evaluate_row models llm) (0, []) rows)"
    by (rule foldl_invariant [where I = all_valid]) (simp add: row_valid, simp add: all_valid_def)
  then show ?thesis by (simp add: all_valid_def evaluate_recipes_def)
qed

lemma gpt_recipes_valid: "list_all (\<lambda>r. valid_scores (scores r)) (gpt_evaluate_recipes llm rows)"
proof -
  have "all_valid (foldl (gpt_evaluate_row llm) (0, []) rows)"
  proof (rule foldl_invariant [where I = all_valid])
    show "all_valid (0, [])" by (simp add: all_valid_def)
  next
    fix st x assume "all_valid st"
    then show "all_valid (gpt_evaluate_row llm st x)"
      by (simp add: all_valid_def gpt_evaluate_row_def Let_def validate_valid)
  qed
  then show ?thesis by (simp add: all_valid_def gpt_evaluate_recipes_def)
qed

text \<open>
  C1, as amended. Every record that leaves \<open>validate_and_fix_scores\<close> has each of its three
  scores either null or a float in the closed interval from 1 to 5, and so has every record
  appended by the Ollama and the GPT-4o-mini evaluators, which run the validator.
\<close>

theorem validated_scores_in_range:
  "valid_scores (validate_and_fix_scores e)
   \<and> (\<forall>r \<in> set (evaluate_recipes models llm rows). valid_scores (scores r))
   \<and> (\<forall>r \<in> set (gpt_evaluate_recipes llm rows). valid_scores (scores r))"
  using validate_valid [of e] recipes_valid [of models llm rows] gpt_recipes_valid [of llm rows]
  by (simp add: list_all_iff)

text \<open>
  C1, as stated, fails for the Gemini evaluator: it has no validator, and the rating 10 is
  appended to the results as the captured string.
\<close>

theorem gemini_persists_out_of_range:
  "map (authenticity_score \<circ> scores) (gemini_evaluate_recipes (always_returns ''AUTHENTICITY: 10'') [sample_row])
     = [Some ''10'', Some ''10'', Some ''10'', Some ''10'', Some ''10'']"
  by code_simp

theorem validated_scores_in_range_witness:
  "valid_scores (validate_and_fix_scores
      \<lparr> authenticity_score = Some (Fin 10), authenticity_reason = Some ''seems like a 3 overall.'',
        sensitivity_score = Some (Fin 7), sensitivity_reason = None,
        harmony_score = None, harmony_reason = Some ''about 15 of 20'' \<rparr>)
   \<and> list_all (valid_scores \<circ> scores) (evaluate_recipes [''gemma2:2b''] (always_returns ''AUTHENTICITY: 10'') [sample_row])
   \<and> list_all (valid_scores \<circ> scores) (gpt_evaluate_recipes (always_returns ''AUTHENTICITY: 10'') [sample_row])
   \<and> map (authenticity_score \<circ> scores) (gpt_evaluate_recipes (always_returns ''AUTHENTICITY: 10'') [sample_row]) = [None]"
proof -
  have w: "map (authenticity_score \<circ> scores) (gpt_evaluate_recipes (always_returns ''AUTHENTICITY: 10'') [sample_row]) = [None]"
    by code_simp
  show ?thesis
    using validated_scores_in_range [of _ "[''gemma2:2b'']" "always_returns ''AUTHENTICITY: 10''" "[sample_row]"] w
    by (simp add: list_all_iff)
qed

lemma ci_prefix_iff:
  "ci_prefix l s \<longleftrightarrow> length l \<le> length s \<and> map lower (take (length l) s) = map lower l"
  by (induction l s rule: ci_prefix.induct) auto

lemma ci_prefix_append: "ci_prefix (l @ m) s \<Longrightarrow> ci_prefix l s"
  by (induction l s rule: ci_prefix.induct) auto

lemma ci_prefix_self: "ci_prefix l (l @ s)"
  by (induction l) auto

lemma ci_occurs_iff: "ci_occurs l t \<longleftrightarrow> (\<exists>s. suffix s t \<and> ci_prefix l s)"
  by (induction t) (auto simp: suffix_Cons)

lemma search_None_iff:
  "search r t = None \<longleftrightarrow> (\<forall>s. suffix s t \<longrightarrow> rmatch r accept s None = None)"
  by (induction t) (auto simp: suffix_Cons split: option.splits)

lemma search_Some_suffix:
  "search r t = Some c \<Longrightarrow> \<exists>s. suffix s t \<and> rmatch r accept s None = Some c"
  by (induction t) (auto simp: suffix_Cons split: option.splits)

lemma search_no_label:
  "\<not> ci_occurs l t \<Longrightarrow> search (Seq (Str (l @ m)) r) t = None"
  by (auto simp: search_None_iff ci_occurs_iff dest: ci_prefix_append)

lemma greedy_cont: "greedy p k s c = Some r \<Longrightarrow> \<exists>s'. suffix s' s \<and> k s' c = Some r"
  by (induction s) (auto simp: suffix_Cons split: if_splits option.splits)

lemma lazy_cont: "lazy p k s c = Some r \<Longrightarrow> \<exists>s'. suffix s' s \<and> k s' c = Some r"
  by (induction s) (auto simp: suffix_Cons split: if_splits option.splits)

lemma rmatch_cont: "rmatch a k s c = Some r \<Longrightarrow> \<exists>s' c'. suffix s' s \<and> k s' c' = Some r"
proof (induction a arbitrary: k s c)
  case (Str l)
  then show ?case by (auto split: if_splits intro: suffix_drop)
next
  case (Atom a)
  then show ?case by (auto split: if_splits list.splits simp: suffix_Cons)
next
  case (Seq a b)
  from Seq.prems have "rmatch a (rmatch b k) s c = Some r" by simp
  from Seq.IH(1) [OF this] obtain s1 c1 where 1: "suffix s1 s" "rmatch b k s1 c1 = Some r" by blast
  from Seq.IH(2) [OF 1(2)] obtain s2 c2 where "suffix s2 s1" "k s2 c2 = Some r" by blast
  with 1 show ?case by (meson suffix_order.trans)
next
  case (Alt a b)
  then show ?case by (auto split: option.splits)
next
  case (Opt a)
  then show ?case by (auto split: option.splits)
next
  case (Star a)
  then show ?case using greedy_cont [of "cc_match a" k s c r] by auto
next
  case (Lazy a)
  then show ?case using lazy_cont [of "cc_match a" k s c r] by auto
next
  case (Plus a)
  show ?case
  proof (cases s)
    case Nil
    with Plus show ?thesis by simp
  next
    case (Cons x xs)
    with Plus have "greedy (cc_match a) k xs c = Some r" by (auto split: if_splits)
    from greedy_cont [OF this] Cons show ?thesis by (auto simp: suffix_Cons)
  qed
next
  case (Group a)
  from Group.prems Group.IH show ?case by fastforce
next
  case (Look a)
  then show ?case by (auto split: option.splits)
next
  case Eos
  then show ?case by (auto split: if_splits)
qed

lemma lower_dot [simp]: "lower x = CHR ''.'' \<longleftrightarrow> x = CHR ''.''"
  by (auto simp: lower_def split: option.splits if_splits)

lemma lower_of_dot [simp]: "lower CHR ''.'' = CHR ''.''"
  by (simp add: lower_def)

lemma seq_cont: "rmatch (Seq a b) k s c = Some r \<Longrightarrow> \<exists>s' c'. suffix s' s \<and> rmatch b k s' c' = Some r"
  using rmatch_cont [of a "rmatch b k" s c r] by simp

lemma greedy_split:
  "greedy p k s c = Some r \<Longrightarrow> \<exists>u v. s = u @ v \<and> (\<forall>x \<in> set u. p x) \<and> k v c = Some r"
proof (induction s)
  case Nil
  then show ?case by simp
next
  case (Cons x xs)
  show ?case
  proof (cases "p x \<and> greedy p k xs c \<noteq> None")
    case True
    with Cons.prems have "greedy p k xs c = Some r" by (auto split: option.splits)
    from Cons.IH [OF this] obtain u v where "xs = u @ v" "\<forall>x \<in> set u. p x" "k v c = Some r" by blast
    with True have "x # xs = (x # u) @ v \<and> (\<forall>y \<in> set (x # u). p y) \<and> k v c = Some r" by simp
    then show ?thesis by blast
  next
    case False
    with Cons.prems have "k (x # xs) c = Some r" by (auto split: option.splits if_splits)
    then have "x # xs = [] @ (x # xs) \<and> (\<forall>y \<in> set []. p y) \<and> k (x # xs) c = Some r" by simp
    then show ?thesis by blast
  qed
qed

lemma plus_split:
  assumes "rmatch (Plus a) k s c = Some r"
  shows "\<exists>u v. s = u @ v \<and> u \<noteq> [] \<and> (\<forall>x \<in> set u. cc_match a x) \<and> k v c = Some r"
proof (cases s)
  case Nil
  with assms show ?thesis by simp
next
  case (Cons x xs)
  with assms have x: "cc_match a x" and g: "greedy (cc_match a) k xs c = Some r"
    by (auto split: if_splits)
  from greedy_split [OF g] obtain u v where "xs = u @ v" "\<forall>x \<in> set u. cc_match a x" "k v c = Some r"
    by blast
  with x Cons have "s = (x # u) @ v \<and> x # u \<noteq> [] \<and> (\<forall>y \<in> set (x # u). cc_match a y) \<and> k v c = Some r"
    by simp
  then show ?thesis by blast
qed

lemma number_split:
  assumes "rmatch number k s c = Some r"
  shows "\<exists>g v. s = g @ v \<and> k v c = Some r \<and>
           (digits g \<or> (\<exists>u w. g = u @ CHR ''.'' # w \<and> digits u \<and> digits w))"
proof -
  let ?frac = "Opt (Seq (Atom (Chr CHR ''.'')) (Plus Digit))"
  from assms have "rmatch (Plus Digit) (rmatch ?frac k) s c = Some r"
    by (simp add: number_def)
  from plus_split [OF this] obtain u v where
    s: "s = u @ v" and u: "digits u" and f: "rmatch ?frac k v c = Some r"
    by (auto simp: digits_def)
  show ?thesis
  proof (cases "rmatch (Seq (Atom (Chr CHR ''.'')) (Plus Digit)) k v c")
    case None
    with f have "k v c = Some r" by simp
    with s u show ?thesis by blast
  next
    case (Some r')
    with f have r': "r' = r" by simp
    from Some obtain v' where v: "v = CHR ''.'' # v'" and p: "rmatch (Plus Digit) k v' c = Some r'"
      by (cases v) (auto split: if_splits)
    from plus_split [OF p] obtain w z where "v' = w @ z" "digits w" "k z c = Some r'"
      by (auto simp: digits_def)
    with s u v r' have "s = (u @ CHR ''.'' # w) @ z \<and> k z c = Some r \<and> digits u \<and> digits w"
      by simp
    then show ?thesis by blast
  qed
qed

lemma group_split:
  assumes "rmatch (Group a) k s c = Some r"
    and "\<And>k' c'. rmatch a k' s c' = Some r \<Longrightarrow> \<exists>g v. s = g @ v \<and> k' v c' = Some r \<and> P g"
  shows "\<exists>g v. s = g @ v \<and> k v (Some g) = Some r \<and> P g"
proof -
  from assms(1) have "rmatch a (\<lambda>s' c'. k s' (Some (take (length s - length s') s))) s c = Some r"
    by simp
  from assms(2) [OF this] obtain g v where "s = g @ v" "k v (Some (take (length s - length v) s)) = Some r" "P g"
    by blast
  then have "s = g @ v \<and> k v (Some g) = Some r \<and> P g" by simp
  then show ?thesis by blast
qed

lemma dot_not_digit [simp]: "\<not> is_digit CHR ''.''"
  by (simp add: is_digit_def)

lemma digit_not_space: "is_digit x \<Longrightarrow> \<not> is_space x"
  by (auto simp: is_digit_def is_space_def)

lemma takeWhile_all: "\<forall>x \<in> set u. p x \<Longrightarrow> takeWhile p (u @ y # w) = (if p y then u @ takeWhile p (y # w) else u)"
  by (induction u) auto

lemma dropWhile_all: "\<forall>x \<in> set u. p x \<Longrightarrow> dropWhile p (u @ w) = dropWhile p w"
  by (induction u) auto

lemma digits_while: "digits u \<Longrightarrow> dropWhile is_digit u = [] \<and> takeWhile is_digit u = u \<and> u \<noteq> []"
  unfolding digits_def dropWhile_eq_Nil_conv takeWhile_eq_all_conv by simp

lemma digits_token: "digits u \<Longrightarrow> numeric_token u"
  by (simp add: numeric_token_def digits_while)

lemma decimal_token: "digits u \<Longrightarrow> digits w \<Longrightarrow> numeric_token (u @ CHR ''.'' # w)"
  by (auto simp: digits_def numeric_token_def dropWhile_all takeWhile_all list_all_iff)

lemma strip_id: "s \<noteq> [] \<Longrightarrow> \<not> is_space (hd s) \<Longrightarrow> \<not> is_space (last s) \<Longrightarrow> strip s = s"
proof -
  assume a: "s \<noteq> []" "\<not> is_space (hd s)" "\<not> is_space (last s)"
  then have 1: "dropWhile is_space s = s" by (cases s) auto
  from a have "rev s \<noteq> []" "\<not> is_space (hd (rev s))" by (auto simp: hd_rev)
  then have "dropWhile is_space (rev s) = rev s" by (cases "rev s") auto
  with 1 show ?thesis by (simp add: strip_def)
qed

lemma digits_ends: "digits u \<Longrightarrow> u \<noteq> [] \<and> is_digit (hd u) \<and> is_digit (last u)"
  by (auto simp: digits_def)

lemma token_facts:
  assumes "digits g \<or> (\<exists>u w. g = u @ CHR ''.'' # w \<and> digits u \<and> digits w)"
  shows "numeric_token g \<and> strip g = g \<and> clean g = g \<and> py_float g \<noteq> None"
proof -
  from assms show ?thesis
  proof
    assume g: "digits g"
    then have "strip g = g" using digits_ends [OF g] by (intro strip_id) (auto dest: digit_not_space)
    moreover have "clean g = g" using g by (auto simp: clean_def digits_def filter_id_conv)
    moreover have "py_float g \<noteq> None"
    proof -
      have d: "dropWhile is_digit g = []" "takeWhile is_digit g = g" "g \<noteq> []"
        using digits_while [OF g] by blast+
      show ?thesis unfolding py_float_def Let_def d(1,2) using d(3) by simp
    qed
    ultimately show ?thesis using digits_token [OF g] by simp
  next
    assume "\<exists>u w. g = u @ CHR ''.'' # w \<and> digits u \<and> digits w"
    then obtain u w where g: "g = u @ CHR ''.'' # w" and u: "digits u" and w: "digits w" by blast
    have "hd g = hd u" "last g = last w" using g u w by (auto simp: digits_def)
    then have "strip g = g" using digits_ends [OF u] digits_ends [OF w] g
      by (intro strip_id) (auto dest: digit_not_space)
    moreover have "clean g = g" using g u w by (auto simp: clean_def digits_def filter_id_conv)
    moreover have "py_float g \<noteq> None"
      using g u w by (auto simp: py_float_def digits_def dropWhile_all takeWhile_all list_all_iff)
    ultimately show ?thesis using decimal_token [OF u w] g by simp
  qed
qed

lemma score_pattern_capture:
  assumes "rmatch (score_pattern label) accept s None = Some c"
  shows "\<exists>g. c = Some g \<and> (digits g \<or> (\<exists>u w. g = u @ CHR ''.'' # w \<and> digits u \<and> digits w))"
proof -
  note m = assms [unfolded score_pattern_def]
  from seq_cont [OF m] obtain s1 c1 where "rmatch (Seq (Opt (Atom (Chr CHR '':'')))
       (Seq (Star Space) (Seq (Opt (Alt (Atom (Chr CHR ''*'')) (Atom (Chr CHR ''#''))))
         (Seq (Star Space) (Group number))))) accept s1 c1 = Some c" by blast
  from seq_cont [OF this] obtain s2 c2 where "rmatch (Seq (Star Space)
       (Seq (Opt (Alt (Atom (Chr CHR ''*'')) (Atom (Chr CHR ''#''))))
         (Seq (Star Space) (Group number)))) accept s2 c2 = Some c" by blast
  from seq_cont [OF this] obtain s3 c3 where "rmatch
       (Seq (Opt (Alt (Atom (Chr CHR ''*'')) (Atom (Chr CHR ''#''))))
         (Seq (Star Space) (Group number))) accept s3 c3 = Some c" by blast
  from seq_cont [OF this] obtain s4 c4 where "rmatch (Seq (Star Space) (Group number)) accept s4 c4 = Some c"
    by blast
  from seq_cont [OF this] obtain s5 c5 where 5: "rmatch (Group number) accept s5 c5 = Some c" by blast
  have "\<exists>g v. s5 = g @ v \<and> accept v (Some g) = Some c
           \<and> (digits g \<or> (\<exists>u w. g = u @ CHR ''.'' # w \<and> digits u \<and> digits w))"
    by (rule group_split [OF 5]) (rule number_split)
  then show ?thesis by (auto simp: accept_def)
qed

text \<open>
  C9. Whenever a score pattern of the Ollama and GPT-4o-mini parser matches, the capture is
  a run of digits, or two runs of digits around one decimal point. Stripping whitespace and
  removing the characters other than digits and dots leave it as it is, \<open>float\<close> accepts
  it, and the score field is a float: the \<open>ValueError\<close> branch is never taken.
\<close>

theorem score_match_never_null:
  assumes "search (score_pattern label) t = Some c"
  shows "\<exists>g v. c = Some g \<and> numeric_token g \<and> strip g = g \<and> clean g = g \<and> py_float g = Some v
           \<and> score_field (score_pattern label) t = Some v"
proof -
  from search_Some_suffix [OF assms] obtain s where "rmatch (score_pattern label) accept s None = Some c"
    by blast
  from score_pattern_capture [OF this] obtain g where
    c: "c = Some g" and g: "digits g \<or> (\<exists>u w. g = u @ CHR ''.'' # w \<and> digits u \<and> digits w)" by blast
  from token_facts [OF g] obtain v where
    f: "numeric_token g" "strip g = g" "clean g = g" "py_float g = Some v" by auto
  with assms c have "score_field (score_pattern label) t = Some v"
    by (simp add: score_field_def group1_def coerce_score_def)
  with c f show ?thesis by blast
qed

theorem score_match_never_null_witness:
  "search (score_pattern ''HARMONY'') ''Harmony: *4.5/5'' = Some (Some ''4.5'')
   \<and> (\<exists>g v. Some ''4.5'' = Some g \<and> numeric_token g \<and> strip g = g \<and> clean g = g
          \<and> py_float g = Some v \<and> score_field (score_pattern ''HARMONY'') ''Harmony: *4.5/5'' = Some v)"
proof -
  have h: "search (score_pattern ''HARMONY'') ''Harmony: *4.5/5'' = Some (Some ''4.5'')"
    by code_simp
  from score_match_never_null [OF h] h show ?thesis by blast
qed

lemma ci_prefix_mono: "ci_prefix l s \<Longrightarrow> ci_prefix l (s @ v)"
  by (induction l s rule: ci_prefix.induct) auto

lemma ci_occurs_suffix: "ci_occurs l a \<Longrightarrow> suffix a b \<Longrightarrow> ci_occurs l b"
  by (meson ci_occurs_iff suffix_order.trans)

lemma ci_occurs_prefix: "ci_occurs l a \<Longrightarrow> ci_occurs l (a @ b)"
proof -
  assume "ci_occurs l a"
  then obtain s where "suffix s a" "ci_prefix l s" by (auto simp: ci_occurs_iff)
  then have "suffix (s @ b) (a @ b)" "ci_prefix l (s @ b)" by (auto simp: ci_prefix_mono suffix_def)
  then show ?thesis unfolding ci_occurs_iff by blast
qed

lemma ci_occurs_strip: "ci_occurs l (strip s) \<Longrightarrow> ci_occurs l s"
proof -
  assume a: "ci_occurs l (strip s)"
  let ?d = "dropWhile is_space s"
  have "suffix (dropWhile is_space (rev ?d)) (rev ?d)" by (rule suffix_dropWhile)
  then obtain z where "rev ?d = z @ dropWhile is_space (rev ?d)" by (auto simp: suffix_def)
  then have "rev (rev ?d) = rev (dropWhile is_space (rev ?d)) @ rev z" by (metis rev_append)
  then have "?d = strip s @ rev z" by (simp add: strip_def)
  with a have "ci_occurs l ?d" by (metis ci_occurs_prefix)
  then show ?thesis by (rule ci_occurs_suffix) (rule suffix_dropWhile)
qed

lemma lazy_min:
  "lazy p k s c = Some r \<Longrightarrow>
     \<exists>u v. s = u @ v \<and> k v c = Some r \<and> (\<forall>u1 u2. u = u1 @ u2 \<and> u2 \<noteq> [] \<longrightarrow> k (u2 @ v) c = None)"
proof (induction s)
  case Nil
  then show ?case by simp
next
  case (Cons x xs)
  show ?case
  proof (cases "k (x # xs) c")
    case (Some r')
    with Cons.prems have "x # xs = [] @ (x # xs) \<and> k (x # xs) c = Some r" by simp
    then show ?thesis by (metis append_is_Nil_conv)
  next
    case None
    with Cons.prems have "lazy p k xs c = Some r" by (auto split: if_splits)
    from Cons.IH [OF this] obtain u v where
      uv: "xs = u @ v" "k v c = Some r" "\<forall>u1 u2. u = u1 @ u2 \<and> u2 \<noteq> [] \<longrightarrow> k (u2 @ v) c = None"
      by blast
    have "\<forall>u1 u2. x # u = u1 @ u2 \<and> u2 \<noteq> [] \<longrightarrow> k (u2 @ v) c = None"
    proof (intro allI impI)
      fix u1 u2 assume h: "x # u = u1 @ u2 \<and> u2 \<noteq> []"
      show "k (u2 @ v) c = None"
      proof (cases u1)
        case Nil
        with h have "u2 = x # u" by simp
        with uv(1) None show ?thesis by simp
      next
        case (Cons y ys)
        with h have "u = ys @ u2" by simp
        with h uv(3) show ?thesis by blast
      qed
    qed
    with uv have "x # xs = (x # u) @ v \<and> k v c = Some r
        \<and> (\<forall>u1 u2. x # u = u1 @ u2 \<and> u2 \<noteq> [] \<longrightarrow> k (u2 @ v) c = None)" by simp
    then show ?thesis by blast
  qed
qed

lemma greedy_start: "k s c \<noteq> None \<Longrightarrow> greedy p k s c \<noteq> None"
  by (cases s) (auto split: option.splits)

text \<open>A lazy capture followed by a lookahead: no earlier end of the capture passes the lookahead.\<close>

lemma lazy_capture:
  assumes "rmatch (Seq (Group (Lazy AnyChar)) (Look T)) accept s c = Some r"
  shows "\<exists>g v. s = g @ v \<and> r = Some g \<and> rmatch T accept v (Some g) \<noteq> None
           \<and> (\<forall>u1 u2. g = u1 @ u2 \<and> u2 \<noteq> [] \<longrightarrow> rmatch T accept (u2 @ v) (Some u1) = None)"
proof -
  let ?k = "\<lambda>s' c'. rmatch (Look T) accept s' (Some (take (length s - length s') s))"
  from assms have "lazy (cc_match AnyChar) ?k s c = Some r" by simp
  from lazy_min [OF this] obtain g v where
    s: "s = g @ v" and k: "?k v c = Some r"
    and m: "\<forall>u1 u2. g = u1 @ u2 \<and> u2 \<noteq> [] \<longrightarrow> ?k (u2 @ v) c = None" by blast
  from k s have 1: "r = Some g \<and> rmatch T accept v (Some g) \<noteq> None"
    by (auto simp: accept_def split: option.splits)
  have "\<forall>u1 u2. g = u1 @ u2 \<and> u2 \<noteq> [] \<longrightarrow> rmatch T accept (u2 @ v) (Some u1) = None"
  proof (intro allI impI)
    fix u1 u2 assume h: "g = u1 @ u2 \<and> u2 \<noteq> []"
    with m have "?k (u2 @ v) c = None" by blast
    with h s show "rmatch T accept (u2 @ v) (Some u1) = None"
      by (auto simp: accept_def split: option.splits)
  qed
  with s 1 show ?thesis by blast
qed

lemma authenticity_end_label:
  "ci_prefix ''SENSITIVITY'' s \<or> ci_prefix ''HARMONY'' s \<Longrightarrow> rmatch authenticity_end accept s c \<noteq> None"
proof -
  assume a: "ci_prefix ''SENSITIVITY'' s \<or> ci_prefix ''HARMONY'' s"
  let ?k = "rmatch (Alt (Str ''SENSITIVITY'') (Alt (Str ''HARMONY'') Eos)) accept"
  from a have "?k s c \<noteq> None" by (auto simp: accept_def)
  then have "greedy (cc_match (Chr (CHR 0x0A))) ?k s c \<noteq> None" by (rule greedy_start)
  then show ?thesis by (simp add: authenticity_end_def newlines_def)
qed

lemma reason_pattern_tail:
  assumes "rmatch (reason_pattern label T) accept s c = Some r"
  shows "\<exists>s' c'. rmatch (Seq (Group (Lazy AnyChar)) (Look T)) accept s' c' = Some r"
proof -
  note m = assms [unfolded reason_pattern_def]
  from seq_cont [OF m] obtain s1 c1 where "rmatch (Seq (Lazy AnyChar)
       (Seq (Alt (Str ''Reason'') (Str ''Explanation'')) (Seq (Atom (Chr CHR '':''))
         (Seq (Star Space) (Seq (Group (Lazy AnyChar)) (Look T)))))) accept s1 c1 = Some r" by blast
  from seq_cont [OF this] obtain s2 c2 where "rmatch
       (Seq (Alt (Str ''Reason'') (Str ''Explanation'')) (Seq (Atom (Chr CHR '':''))
         (Seq (Star Space) (Seq (Group (Lazy AnyChar)) (Look T))))) accept s2 c2 = Some r" by blast
  from seq_cont [OF this] obtain s3 c3 where "rmatch (Seq (Atom (Chr CHR '':''))
         (Seq (Star Space) (Seq (Group (Lazy AnyChar)) (Look T)))) accept s3 c3 = Some r" by blast
  from seq_cont [OF this] obtain s4 c4 where "rmatch
         (Seq (Star Space) (Seq (Group (Lazy AnyChar)) (Look T))) accept s4 c4 = Some r" by blast
  from seq_cont [OF this] show ?thesis by blast
qed

lemma authenticity_reason_capture:
  assumes "search (reason_pattern ''AUTHENTICITY'' authenticity_end) t = Some r"
  shows "\<exists>g. r = Some g \<and> \<not> ci_occurs ''SENSITIVITY'' g \<and> \<not> ci_occurs ''HARMONY'' g"
proof -
  from search_Some_suffix [OF assms] obtain s where
    "rmatch (reason_pattern ''AUTHENTICITY'' authenticity_end) accept s None = Some r" by blast
  from reason_pattern_tail [OF this] obtain s' c' where
    "rmatch (Seq (Group (Lazy AnyChar)) (Look authenticity_end)) accept s' c' = Some r" by blast
  from lazy_capture [OF this] obtain g v where r: "r = Some g"
    and m: "\<forall>u1 u2. g = u1 @ u2 \<and> u2 \<noteq> [] \<longrightarrow> rmatch authenticity_end accept (u2 @ v) (Some u1) = None"
    by blast
  have "\<not> ci_occurs l g" if l: "l = ''SENSITIVITY'' \<or> l = ''HARMONY''" for l
  proof
    assume "ci_occurs l g"
    then obtain u2 where u2: "suffix u2 g" "ci_prefix l u2" by (auto simp: ci_occurs_iff)
    then obtain u1 where g: "g = u1 @ u2" by (auto simp: suffix_def)
    from u2(2) l have "u2 \<noteq> []" by auto
    with g m have "rmatch authenticity_end accept (u2 @ v) (Some u1) = None" by blast
    moreover from u2(2) have "ci_prefix l (u2 @ v)" by (rule ci_prefix_mono)
    ultimately show False using l authenticity_end_label [of "u2 @ v" "Some u1"] by blast
  qed
  with r show ?thesis by blast
qed

text \<open>
  C10. A non-null authenticity reason of the Ollama and GPT-4o-mini parser contains neither
  SENSITIVITY nor HARMONY in any letter case: the lazy capture ends at the first place where
  the lookahead matches, so a reason that mentions one of the words is cut there.
\<close>

theorem authenticity_reason_stops_at_label:
  assumes "authenticity_reason (parse_evaluation t) = Some g"
  shows "\<not> ci_occurs ''SENSITIVITY'' g \<and> \<not> ci_occurs ''HARMONY'' g"
proof -
  from assms obtain r where s: "search (reason_pattern ''AUTHENTICITY'' authenticity_end) t = Some r"
    by (cases "search (reason_pattern ''AUTHENTICITY'' authenticity_end) t")
       (auto simp: parse_evaluation_def group1_def)
  from authenticity_reason_capture [OF s] obtain g' where
    g': "r = Some g'" "\<not> ci_occurs ''SENSITIVITY'' g'" "\<not> ci_occurs ''HARMONY'' g'" by blast
  with assms s have "g = strip g'" by (simp add: parse_evaluation_def group1_def)
  with g' show ?thesis by (blast dest: ci_occurs_strip)
qed

theorem authenticity_reason_stops_at_label_witness:
  "authenticity_reason (parse_evaluation (''AUTHENTICITY: 4'' @ [CHR 0x0A] @ ''Reason: Good sensitivity to taste.''))
     = Some ''Good''
   \<and> \<not> ci_occurs ''SENSITIVITY'' ''Good'' \<and> \<not> ci_occurs ''HARMONY'' ''Good''"
proof -
  have h: "authenticity_reason (parse_evaluation (''AUTHENTICITY: 4'' @ [CHR 0x0A] @ ''Reason: Good sensitivity to taste.''))
     = Some ''Good''"
    by code_simp
  from authenticity_reason_stops_at_label [OF h] h show ?thesis by blast
qed







lemma greedy_max: "k (dropWhile p s) c \<noteq> None \<Longrightarrow> greedy p k s c = k (dropWhile p s) c"
  by (induction s) (auto split: option.splits)

lemma take_prefix: "take (length (u @ v) - length v) (u @ v) = u"
  by simp

lemma capture_to_total: "capture_to s s' c' \<noteq> None"
  by (simp add: capture_to_def accept_def)

lemma frac_total: "rmatch (Opt (Seq (Atom (Chr CHR ''.'')) (Plus Digit))) (capture_to s) v c \<noteq> None"
  by (simp add: capture_to_def accept_def split: option.splits)

lemma cc_match_Digit [simp]: "cc_match Digit = is_digit"
  by (rule ext) simp

lemma cc_match_Space [simp]: "cc_match Space = is_space"
  by (rule ext) simp

lemma number_at_digit:
  assumes "is_digit x"
  shows "rmatch (Group number) accept (x # xs) None =
           (case first_numeric_token (x # xs) of None \<Rightarrow> None | Some tok \<Rightarrow> Some (Some tok))"
proof -
  let ?s = "x # xs"
  let ?ip = "takeWhile is_digit ?s"
  let ?after = "dropWhile is_digit ?s"
  let ?K = "capture_to ?s"
  let ?frac = "Opt (Seq (Atom (Chr CHR ''.'')) (Plus Digit))"
  have s: "?s = ?ip @ ?after" by simp
  have ip: "?ip \<noteq> []" using assms by simp
  have "rmatch (Group number) accept ?s None = rmatch (Plus Digit) (rmatch ?frac ?K) ?s None"
    by (simp add: number_def capture_to_def [abs_def])
  also have "\<dots> = greedy is_digit (rmatch ?frac ?K) xs None" using assms by simp
  also have "\<dots> = rmatch ?frac ?K (dropWhile is_digit xs) None"
    by (rule greedy_max) (rule frac_total)
  also have "dropWhile is_digit xs = ?after" using assms by simp
  finally have 1: "rmatch (Group number) accept ?s None = rmatch ?frac ?K ?after None" .
  have K: "?K v c = Some (Some u)" if "?s = u @ v" for u v c
    using that by (simp add: capture_to_def accept_def)
  show ?thesis
  proof (cases "\<exists>d zs. ?after = CHR ''.'' # d # zs \<and> is_digit d")
    case True
    then obtain d zs where a: "?after = CHR ''.'' # d # zs" and d: "is_digit d" by blast
    let ?w = "takeWhile is_digit (d # zs)"
    let ?z = "dropWhile is_digit (d # zs)"
    have "?s = (?ip @ CHR ''.'' # ?w) @ ?z" using s a by (metis append.assoc append_Cons takeWhile_dropWhile_id)
    then have Kz: "?K ?z None = Some (Some (?ip @ CHR ''.'' # ?w))" by (rule K)
    have "rmatch (Seq (Atom (Chr CHR ''.'')) (Plus Digit)) ?K ?after None = greedy is_digit ?K zs None"
      using a d by simp
    also have "\<dots> = ?K (dropWhile is_digit zs) None"
      by (rule greedy_max) (rule capture_to_total)
    also have "dropWhile is_digit zs = ?z" using d by simp
    finally have "rmatch ?frac ?K ?after None = Some (Some (?ip @ CHR ''.'' # ?w))"
      using Kz by simp
    moreover have "first_numeric_token ?s = Some (?ip @ CHR ''.'' # ?w)"
      using assms a d ip unfolding first_numeric_token_def Let_def by simp
    ultimately show ?thesis using 1 by simp
  next
    case False
    have "rmatch (Seq (Atom (Chr CHR ''.'')) (Plus Digit)) ?K ?after None = None"
    proof (cases ?after)
      case Nil
      then show ?thesis by simp
    next
      case (Cons c r1)
      show ?thesis
      proof (cases r1)
        case Nil
        with Cons show ?thesis by simp
      next
        case (Cons d zs)
        with \<open>?after = c # r1\<close> False have "\<not> (c = CHR ''.'' \<and> is_digit d)" by simp
        with Cons \<open>?after = c # r1\<close> show ?thesis by auto
      qed
    qed
    moreover have "?K ?after None = Some (Some ?ip)" using s by (rule K)
    ultimately have "rmatch ?frac ?K ?after None = Some (Some ?ip)" by simp
    moreover have "first_numeric_token ?s = Some ?ip"
      using assms False ip unfolding first_numeric_token_def Let_def
      by (auto split: list.splits)
    ultimately show ?thesis using 1 by simp
  qed
qed

lemma number_at_other: "\<not> is_digit x \<Longrightarrow> rmatch (Group number) accept (x # xs) None = None"
  by (simp add: number_def)

lemma token_skip: "\<not> is_digit x \<Longrightarrow> first_numeric_token (x # xs) = first_numeric_token xs"
  by (simp add: first_numeric_token_def)

lemma token_at_digit: "is_digit x \<Longrightarrow> first_numeric_token (x # xs) \<noteq> None"
proof -
  assume x: "is_digit x"
  then have r: "dropWhile (\<lambda>c. \<not> is_digit c) (x # xs) = x # xs" by simp
  from x have ip: "takeWhile is_digit (x # xs) \<noteq> []" by simp
  show ?thesis
    unfolding first_numeric_token_def Let_def r using ip
    by (cases "dropWhile is_digit (x # xs)" rule: list.exhaust [case_product list.exhaust]) (auto split: list.splits)
qed

lemma first_number_scan: "first_number t = first_numeric_token t"
proof (induction t)
  case Nil
  then show ?case by (simp add: first_number_def first_numeric_token_def number_def)
next
  case (Cons x xs)
  show ?case
  proof (cases "is_digit x")
    case True
    from token_at_digit [OF True] obtain tok where tok: "first_numeric_token (x # xs) = Some tok"
      by blast
    with number_at_digit [OF True, of xs] have "rmatch (Group number) accept (x # xs) None = Some (Some tok)"
      by simp
    with tok show ?thesis by (simp add: first_number_def del: rmatch.simps)
  next
    case False
    with Cons show ?thesis
      by (simp add: first_number_def number_at_other token_skip del: rmatch.simps)
  qed
qed

lemma needs_fix_iff: "needs_fix s \<longleftrightarrow> s = None \<or> (\<exists>v. s = Some v \<and> \<not> in_range v)"
proof (cases s)
  case None
  then show ?thesis by (simp add: needs_fix_def)
next
  case (Some v)
  then show ?thesis by (cases v) (auto simp: needs_fix_def in_range_def fle_def)
qed

lemma validate_get_score:
  "get_score k (validate_and_fix_scores e) = fixed (get_score k e) (get_reason k e)"
  by (cases k) (simp_all add: validate_fields)

lemma first_number_float:
  assumes "first_number t = Some tok"
  shows "py_float tok \<noteq> None"
proof -
  from assms have "search (Group number) t = Some (Some tok)"
    by (auto simp: first_number_def split: option.splits)
  from search_Some_suffix [OF this] obtain s where
    m: "rmatch (Group number) accept s None = Some (Some tok)" by blast
  have "\<exists>g v. s = g @ v \<and> accept v (Some g) = Some (Some tok)
           \<and> (digits g \<or> (\<exists>u w. g = u @ CHR ''.'' # w \<and> digits u \<and> digits w))"
    by (rule group_split [OF m]) (rule number_split)
  then have "digits tok \<or> (\<exists>u w. tok = u @ CHR ''.'' # w \<and> digits u \<and> digits w)"
    by (auto simp: accept_def)
  from token_facts [OF this] show ?thesis by blast
qed

text \<open>
  C4. For a criterion whose score is null or outside the interval from 1 to 5, the validator
  takes the first numeric token of the reason (the first run of digits, with a decimal part
  when a dot and a digit follow): the score becomes the float of that token when it lies in
  the interval, and null when it lies outside, when there is no token, or when the reason is
  absent or empty. \<open>float\<close> never fails on the token.
\<close>

theorem validator_repair:
  assumes "get_score k e = None \<or> (\<exists>v. get_score k e = Some v \<and> \<not> in_range v)"
  shows "(get_reason k e = None \<or> get_reason k e = Some [] \<longrightarrow>
            get_score k (validate_and_fix_scores e) = None)
       \<and> (\<forall>t. get_reason k e = Some t \<and> first_numeric_token t = None \<longrightarrow>
            get_score k (validate_and_fix_scores e) = None)
       \<and> (\<forall>t tok. get_reason k e = Some t \<and> first_numeric_token t = Some tok \<longrightarrow>
            (\<exists>v. py_float tok = Some v \<and>
                 get_score k (validate_and_fix_scores e) = (if in_range v then Some v else None)))"
proof -
  from assms have "needs_fix (get_score k e)" by (simp add: needs_fix_iff)
  then have r: "get_score k (validate_and_fix_scores e) = rescue (get_reason k e)"
    by (simp add: validate_get_score fixed_def)
  have a: "get_reason k e = None \<or> get_reason k e = Some [] \<longrightarrow> rescue (get_reason k e) = None"
    by (auto simp: rescue_def)
  have b: "rescue (Some t) = None" if "first_numeric_token t = None" for t
    using that by (simp add: rescue_def first_number_scan)
  have c: "\<exists>v. py_float tok = Some v \<and> rescue (Some t) = (if in_range v then Some v else None)"
    if t: "first_numeric_token t = Some tok" for t tok
  proof -
    from t have f: "first_number t = Some tok" by (simp add: first_number_scan)
    from first_number_float [OF f] obtain v where v: "py_float tok = Some v" by blast
    from t have "t \<noteq> []" by (auto simp: first_numeric_token_def)
    with f v show ?thesis by (simp add: rescue_def)
  qed
  from a b c show ?thesis unfolding r by auto
qed

theorem validator_repair_witness:
  "get_score Authenticity sample_parsed = None
   \<and> get_score Authenticity (validate_and_fix_scores sample_parsed) = Some (Fin 3)
   \<and> get_score Sensitivity sample_parsed = Some (Fin 7) \<and> \<not> in_range (Fin 7)
   \<and> first_numeric_token ''Far too sweet: 15 of 20 tasters disliked it'' = Some ''15''
   \<and> get_score Sensitivity (validate_and_fix_scores sample_parsed) = None"
proof -
  let ?r = "''I'' @ [CHR 0x27] @ ''d give this a 3 for authenticity''"
  let ?q = "''Far too sweet: 15 of 20 tasters disliked it''"
  have a: "get_score Authenticity sample_parsed = None"
    and ar: "get_reason Authenticity sample_parsed = Some ?r"
    and s: "get_score Sensitivity sample_parsed = Some (Fin 7)"
    and sr: "get_reason Sensitivity sample_parsed = Some ?q"
    by (simp_all add: sample_parsed_def)
  have n7: "\<not> in_range (Fin 7)" by (simp add: in_range_def fle_def)
  have t3: "first_numeric_token ?r = Some ''3''" by code_simp
  have t15: "first_numeric_token ?q = Some ''15''" by code_simp
  have f3: "py_float ''3'' = Some (Fin 3)" by code_simp
  have f15: "py_float ''15'' = Some (Fin 15)" by code_simp
  have i3: "in_range (Fin 3)" and n15: "\<not> in_range (Fin 15)" by (simp_all add: in_range_def fle_def)
  from validator_repair [of Authenticity sample_parsed] a ar t3 f3 i3
  have 1: "get_score Authenticity (validate_and_fix_scores sample_parsed) = Some (Fin 3)"
    by auto
  from validator_repair [of Sensitivity sample_parsed] s n7 sr t15 f15 n15
  have 2: "get_score Sensitivity (validate_and_fix_scores sample_parsed) = None"
    by auto
  from a s n7 t15 1 2 show ?thesis by blast
qed

lemma search_SomeI: "suffix s t \<Longrightarrow> rmatch r accept s None \<noteq> None \<Longrightarrow> search r t \<noteq> None"
  by (auto simp: search_None_iff)

lemma lazy_start: "k s c \<noteq> None \<Longrightarrow> lazy p k s c \<noteq> None"
  by (cases s) (auto split: option.splits)

lemma greedy_ok: "\<forall>x \<in> set u. p x \<Longrightarrow> k v c \<noteq> None \<Longrightarrow> greedy p k (u @ v) c \<noteq> None"
  by (induction u) (auto simp: greedy_start split: option.splits)

lemma lazy_ok: "\<forall>x \<in> set u. p x \<Longrightarrow> k v c \<noteq> None \<Longrightarrow> lazy p k (u @ v) c \<noteq> None"
  by (induction u) (auto simp: lazy_start split: option.splits)

lemma greedy_total:
  assumes "\<And>s c. k s c \<noteq> None"
  shows "greedy p k s c \<noteq> None"
  using greedy_ok [of "[]" p k s c] assms by simp

lemma lower_colon [simp]: "lower CHR '':'' = CHR '':''"
  by (simp add: lower_def)

lemma seq_str: "rmatch (Seq (Str l) b) k (l @ s) c = rmatch b k s c"
  by (simp add: ci_prefix_self)

lemma seq_opt_skip: "rmatch b k s c \<noteq> None \<Longrightarrow> rmatch (Seq (Opt a) b) k s c \<noteq> None"
  by (auto split: option.splits)

lemma seq_colon: "rmatch (Seq (Atom (Chr CHR '':'')) b) k (CHR '':'' # s) c = rmatch b k s c"
  by simp

lemma seq_opt_colon:
  "rmatch b k s c \<noteq> None \<Longrightarrow> rmatch (Seq (Opt (Atom (Chr CHR '':''))) b) k (CHR '':'' # s) c \<noteq> None"
  by (auto split: option.splits)

lemma seq_star:
  "\<forall>x \<in> set u. cc_match a x \<Longrightarrow> rmatch b k v c \<noteq> None \<Longrightarrow> rmatch (Seq (Star a) b) k (u @ v) c \<noteq> None"
  using greedy_ok [of u "cc_match a" "rmatch b k" v c] by simp

lemma seq_star_total:
  "(\<And>s c. rmatch b k s c \<noteq> None) \<Longrightarrow> rmatch (Seq (Star a) b) k s c \<noteq> None"
  using greedy_total [of "rmatch b k" "cc_match a" s c] by simp

lemma seq_lazy:
  "rmatch b k v c \<noteq> None \<Longrightarrow> rmatch (Seq (Lazy AnyChar) b) k (u @ v) c \<noteq> None"
  using lazy_ok [of u "cc_match AnyChar" "rmatch b k" v c] by simp

lemma seq_alt_first:
  "rmatch (Seq a1 b) k s c \<noteq> None \<Longrightarrow> rmatch (Seq (Alt a1 a2) b) k s c \<noteq> None"
  by (auto split: option.splits)

lemma number_ok:
  assumes "digits ds" and "\<And>s c. k s c \<noteq> None"
  shows "rmatch number k (ds @ rest) c \<noteq> None"
proof -
  from assms(1) obtain x xs where ds: "ds = x # xs" "is_digit x" by (cases ds) (auto simp: digits_def)
  have "\<And>s c. rmatch (Opt (Seq (Atom (Chr CHR ''.'')) (Plus Digit))) k s c \<noteq> None"
    using assms(2) by (auto split: option.splits)
  then have "greedy is_digit (rmatch (Opt (Seq (Atom (Chr CHR ''.'')) (Plus Digit))) k) (xs @ rest) c \<noteq> None"
    by (rule greedy_total)
  with ds show ?thesis by (simp add: number_def)
qed

lemma group_capture_to: "rmatch (Group a) accept s c = rmatch a (capture_to s) s c"
  by (simp add: capture_to_def [abs_def])

lemma group_number_ok: "digits ds \<Longrightarrow> rmatch (Group number) accept (ds @ rest) c \<noteq> None"
proof -
  assume d: "digits ds"
  have "rmatch number (capture_to (ds @ rest)) (ds @ rest) c \<noteq> None"
    by (rule number_ok [OF d]) (rule capture_to_total)
  then show ?thesis unfolding group_capture_to .
qed

lemma score_pattern_ok:
  assumes "\<forall>x \<in> set sp. is_space x" and "digits ds"
  shows "rmatch (score_pattern l) accept (l @ CHR '':'' # sp @ ds @ rest) c \<noteq> None"
proof -
  have "rmatch (Seq (Star Space) (Group number)) accept ([] @ ds @ rest) c \<noteq> None"
    by (rule seq_star) (simp, rule group_number_ok [OF assms(2)])
  then have "rmatch (Seq (Opt (Alt (Atom (Chr CHR ''*'')) (Atom (Chr CHR ''#''))))
         (Seq (Star Space) (Group number))) accept (ds @ rest) c \<noteq> None"
    by (intro seq_opt_skip) (simp del: rmatch.simps)
  then have "rmatch (Seq (Star Space) (Seq (Opt (Alt (Atom (Chr CHR ''*'')) (Atom (Chr CHR ''#''))))
         (Seq (Star Space) (Group number)))) accept (sp @ ds @ rest) c \<noteq> None"
    using assms(1) by (intro seq_star) (simp_all del: rmatch.simps)
  then have "rmatch (Seq (Opt (Atom (Chr CHR '':''))) (Seq (Star Space)
       (Seq (Opt (Alt (Atom (Chr CHR ''*'')) (Atom (Chr CHR ''#''))))
         (Seq (Star Space) (Group number))))) accept (CHR '':'' # sp @ ds @ rest) c \<noteq> None"
    by (rule seq_opt_colon)
  then show ?thesis unfolding score_pattern_def seq_str .
qed

lemma ending_at_end: "rmatch (ending k) accept [] c \<noteq> None"
  by (cases k) (simp_all add: authenticity_end_def sensitivity_end_def harmony_end_def newlines_def accept_def)

lemma capture_ok: "rmatch (Seq (Group (Lazy AnyChar)) (Look (ending k))) accept s c \<noteq> None"
proof -
  let ?k = "\<lambda>s' c'. rmatch (Look (ending k)) accept s' (Some (take (length s - length s') s))"
  have "?k [] c \<noteq> None" using ending_at_end [of k] by (auto simp: accept_def split: option.splits)
  then have "lazy (cc_match AnyChar) ?k (s @ []) c \<noteq> None" by (intro lazy_ok) simp_all
  then show ?thesis by simp
qed

lemma reason_pattern_ok:
  "rmatch (reason_pattern l (ending k)) accept (l @ CHR '':'' # mid @ ''Reason'' @ CHR '':'' # tail) c \<noteq> None"
proof -
  let ?body = "Seq (Group (Lazy AnyChar)) (Look (ending k))"
  have "rmatch (Seq (Star Space) ?body) accept tail c \<noteq> None"
    by (rule seq_star_total) (rule capture_ok)
  then have "rmatch (Seq (Atom (Chr CHR '':'')) (Seq (Star Space) ?body)) accept (CHR '':'' # tail) c \<noteq> None"
    unfolding seq_colon .
  then have "rmatch (Seq (Str ''Reason'') (Seq (Atom (Chr CHR '':'')) (Seq (Star Space) ?body))) accept
      (''Reason'' @ CHR '':'' # tail) c \<noteq> None"
    unfolding seq_str .
  then have "rmatch (Seq (Alt (Str ''Reason'') (Str ''Explanation'')) (Seq (Atom (Chr CHR '':''))
      (Seq (Star Space) ?body))) accept (''Reason'' @ CHR '':'' # tail) c \<noteq> None"
    by (rule seq_alt_first)
  then have "rmatch (Seq (Lazy AnyChar) (Seq (Alt (Str ''Reason'') (Str ''Explanation''))
      (Seq (Atom (Chr CHR '':'')) (Seq (Star Space) ?body)))) accept
      (mid @ ''Reason'' @ CHR '':'' # tail) c \<noteq> None"
    by (rule seq_lazy)
  moreover have "rmatch (reason_pattern l (ending k)) accept ((l @ '':'') @ mid @ ''Reason'' @ CHR '':'' # tail) c
      = rmatch (Seq (Lazy AnyChar) (Seq (Alt (Str ''Reason'') (Str ''Explanation''))
      (Seq (Atom (Chr CHR '':'')) (Seq (Star Space) ?body)))) accept
      (mid @ ''Reason'' @ CHR '':'' # tail) c"
    unfolding reason_pattern_def by (rule seq_str)
  ultimately show ?thesis by (simp del: rmatch.simps)
qed

lemma group_sets:
  assumes "rmatch (Group a) accept s c = Some r"
  shows "\<exists>g. r = Some g"
proof -
  from assms have "rmatch a (\<lambda>s' c'. accept s' (Some (take (length s - length s') s))) s c = Some r"
    by simp
  from rmatch_cont [OF this] show ?thesis by (auto simp: accept_def)
qed

lemma score_field_some:
  assumes "search (score_pattern l) t \<noteq> None"
  shows "score_field (score_pattern l) t \<noteq> None"
proof -
  from assms obtain c where c: "search (score_pattern l) t = Some c" by blast
  from search_Some_suffix [OF c] obtain s where "rmatch (score_pattern l) accept s None = Some c"
    by blast
  from score_pattern_capture [OF this] obtain g where
    g: "c = Some g" "digits g \<or> (\<exists>u w. g = u @ CHR ''.'' # w \<and> digits u \<and> digits w)" by blast
  from token_facts [OF g(2)] c g(1) show ?thesis
    by (auto simp: score_field_def group1_def coerce_score_def)
qed

lemma reason_group_some:
  assumes "search (reason_pattern l T) t \<noteq> None"
  shows "group1 (reason_pattern l T) t \<noteq> None"
proof -
  from assms obtain r where r: "search (reason_pattern l T) t = Some r" by blast
  from search_Some_suffix [OF r] obtain s where "rmatch (reason_pattern l T) accept s None = Some r"
    by blast
  from reason_pattern_tail [OF this] obtain s' c' where
    "rmatch (Seq (Group (Lazy AnyChar)) (Look T)) accept s' c' = Some r" by blast
  from lazy_capture [OF this] obtain g where "r = Some g" by blast
  with r show ?thesis by (simp add: group1_def)
qed

lemma gemini_score_group_some:
  assumes "search (gemini_score_pattern l) t \<noteq> None"
  shows "group1 (gemini_score_pattern l) t \<noteq> None"
proof -
  from assms obtain r where r: "search (gemini_score_pattern l) t = Some r" by blast
  from search_Some_suffix [OF r] obtain s where "rmatch (gemini_score_pattern l) accept s None = Some r"
    by blast
  note m = this [unfolded gemini_score_pattern_def]
  from seq_cont [OF m] obtain s1 c1 where
    "rmatch (Seq (Opt (Atom (Chr CHR '':''))) (Seq (Star Space) (Group (Plus Digit)))) accept s1 c1 = Some r"
    by blast
  from seq_cont [OF this] obtain s2 c2 where
    "rmatch (Seq (Star Space) (Group (Plus Digit))) accept s2 c2 = Some r" by blast
  from seq_cont [OF this] obtain s3 c3 where "rmatch (Group (Plus Digit)) accept s3 c3 = Some r"
    by blast
  from group_sets [OF this] r show ?thesis by (auto simp: group1_def)
qed

lemma gemini_last_group_some:
  assumes "search (gemini_last_reason_pattern l) t \<noteq> None"
  shows "group1 (gemini_last_reason_pattern l) t \<noteq> None"
proof -
  from assms obtain r where r: "search (gemini_last_reason_pattern l) t = Some r" by blast
  from search_Some_suffix [OF r] obtain s where
    "rmatch (gemini_last_reason_pattern l) accept s None = Some r" by blast
  note m = this [unfolded gemini_last_reason_pattern_def]
  from seq_cont [OF m] obtain s1 c1 where
    "rmatch (Seq (Lazy AnyChar) (Seq (Str ''Reason'') (Seq (Atom (Chr CHR '':''))
       (Seq (Star Space) (Group (Star AnyChar)))))) accept s1 c1 = Some r" by blast
  from seq_cont [OF this] obtain s2 c2 where
    "rmatch (Seq (Str ''Reason'') (Seq (Atom (Chr CHR '':''))
       (Seq (Star Space) (Group (Star AnyChar))))) accept s2 c2 = Some r" by blast
  from seq_cont [OF this] obtain s3 c3 where
    "rmatch (Seq (Atom (Chr CHR '':'')) (Seq (Star Space) (Group (Star AnyChar)))) accept s3 c3 = Some r"
    by blast
  from seq_cont [OF this] obtain s4 c4 where
    "rmatch (Seq (Star Space) (Group (Star AnyChar))) accept s4 c4 = Some r" by blast
  from seq_cont [OF this] obtain s5 c5 where "rmatch (Group (Star AnyChar)) accept s5 c5 = Some r"
    by blast
  from group_sets [OF this] r show ?thesis by (auto simp: group1_def)
qed

lemma gemini_score_pattern_ok:
  assumes "\<forall>x \<in> set sp. is_space x" and "digits ds"
  shows "rmatch (gemini_score_pattern l) accept (l @ CHR '':'' # sp @ ds @ rest) c \<noteq> None"
proof -
  from assms(2) obtain x xs where ds: "ds = x # xs" "is_digit x" by (cases ds) (auto simp: digits_def)
  have "greedy is_digit (capture_to (ds @ rest)) (xs @ rest) c \<noteq> None"
    by (rule greedy_total) (rule capture_to_total)
  with ds have "rmatch (Plus Digit) (capture_to (ds @ rest)) (ds @ rest) c \<noteq> None" by simp
  then have "rmatch (Group (Plus Digit)) accept (ds @ rest) c \<noteq> None"
    unfolding group_capture_to .
  then have "rmatch (Seq (Star Space) (Group (Plus Digit))) accept (sp @ ds @ rest) c \<noteq> None"
    using assms(1) by (intro seq_star) (simp_all del: rmatch.simps)
  then have "rmatch (Seq (Opt (Atom (Chr CHR '':''))) (Seq (Star Space) (Group (Plus Digit)))) accept
      (CHR '':'' # sp @ ds @ rest) c \<noteq> None"
    by (rule seq_opt_colon)
  then show ?thesis unfolding gemini_score_pattern_def seq_str .
qed

lemma gemini_last_reason_ok:
  "rmatch (gemini_last_reason_pattern l) accept (l @ mid @ ''Reason'' @ CHR '':'' # tail) c \<noteq> None"
proof -
  have "\<And>s c. rmatch (Group (Star AnyChar)) accept s c \<noteq> None"
    unfolding group_capture_to using greedy_total [OF capture_to_total] by simp
  then have "rmatch (Seq (Star Space) (Group (Star AnyChar))) accept tail c \<noteq> None"
    by (rule seq_star_total)
  then have "rmatch (Seq (Atom (Chr CHR '':'')) (Seq (Star Space) (Group (Star AnyChar)))) accept
      (CHR '':'' # tail) c \<noteq> None"
    unfolding seq_colon .
  then have "rmatch (Seq (Str ''Reason'') (Seq (Atom (Chr CHR '':''))
      (Seq (Star Space) (Group (Star AnyChar))))) accept (''Reason'' @ CHR '':'' # tail) c \<noteq> None"
    unfolding seq_str .
  then have "rmatch (Seq (Lazy AnyChar) (Seq (Str ''Reason'') (Seq (Atom (Chr CHR '':''))
      (Seq (Star Space) (Group (Star AnyChar)))))) accept (mid @ ''Reason'' @ CHR '':'' # tail) c \<noteq> None"
    by (rule seq_lazy)
  then show ?thesis unfolding gemini_last_reason_pattern_def seq_str .
qed

lemma gemini_reason_needs_next:
  assumes "search (gemini_reason_pattern l nxt) t = Some r"
  shows "ci_occurs nxt t"
proof -
  let ?T = "Seq newlines (Str nxt)"
  from search_Some_suffix [OF assms] obtain s where
    s: "suffix s t" and "rmatch (gemini_reason_pattern l nxt) accept s None = Some r" by blast
  note m = this(2) [unfolded gemini_reason_pattern_def]
  from seq_cont [OF m] obtain s1 c1 where 1: "suffix s1 s" and
    "rmatch (Seq (Lazy AnyChar) (Seq (Str ''Reason'') (Seq (Atom (Chr CHR '':''))
       (Seq (Star Space) (Seq (Group (Lazy AnyChar)) (Look ?T)))))) accept s1 c1 = Some r" by blast
  from seq_cont [OF this(2)] obtain s2 c2 where 2: "suffix s2 s1" and
    "rmatch (Seq (Str ''Reason'') (Seq (Atom (Chr CHR '':''))
       (Seq (Star Space) (Seq (Group (Lazy AnyChar)) (Look ?T))))) accept s2 c2 = Some r" by blast
  from seq_cont [OF this(2)] obtain s3 c3 where 3: "suffix s3 s2" and
    "rmatch (Seq (Atom (Chr CHR '':''))
       (Seq (Star Space) (Seq (Group (Lazy AnyChar)) (Look ?T)))) accept s3 c3 = Some r" by blast
  from seq_cont [OF this(2)] obtain s4 c4 where 4: "suffix s4 s3" and
    "rmatch (Seq (Star Space) (Seq (Group (Lazy AnyChar)) (Look ?T))) accept s4 c4 = Some r" by blast
  from seq_cont [OF this(2)] obtain s5 c5 where 5: "suffix s5 s4" and
    "rmatch (Seq (Group (Lazy AnyChar)) (Look ?T)) accept s5 c5 = Some r" by blast
  from lazy_capture [OF this(2)] obtain g v where
    v: "s5 = g @ v" and "rmatch ?T accept v (Some g) \<noteq> None" by blast
  then obtain r' where "greedy (cc_match (Chr (CHR 0x0A))) (rmatch (Str nxt) accept) v (Some g) = Some r'"
    by (auto simp: newlines_def)
  from greedy_cont [OF this] obtain s6 where 6: "suffix s6 v" and "rmatch (Str nxt) accept s6 (Some g) = Some r'"
    by blast
  then have p: "ci_prefix nxt s6" by (auto split: if_splits)
  from v have "suffix v s5" by (simp add: suffix_def)
  with 6 5 4 3 2 1 s have "suffix s6 t" by (meson suffix_order.trans)
  with p show ?thesis by (auto simp: ci_occurs_iff)
qed

lemma get_parse:
  "get_score k (parse_evaluation t) = score_field (score_pattern (label_of k)) t"
  "get_reason k (parse_evaluation t) = group1 (reason_pattern (label_of k) (ending k)) t"
  by (cases k; simp add: parse_evaluation_def)+

lemma get_gemini_parse:
  "get_score k (gemini_parse_evaluation t) = group1 (gemini_score_pattern (label_of k)) t"
  "get_reason k (gemini_parse_evaluation t) = group1 (gemini_reason_of k) t"
  by (cases k; simp add: gemini_parse_evaluation_def)+

lemma search_no_label0: "\<not> ci_occurs l t \<Longrightarrow> search (Seq (Str l) r) t = None"
  using search_no_label [of l t "[]" r] by simp

lemma absent_label:
  assumes "\<not> ci_occurs (label_of k) t"
  shows "get_score k (parse_evaluation t) = None" "get_reason k (parse_evaluation t) = None"
    "get_score k (gemini_parse_evaluation t) = None" "get_reason k (gemini_parse_evaluation t) = None"
proof -
  show "get_score k (parse_evaluation t) = None"
    using assms by (simp add: get_parse score_field_def group1_def score_pattern_def search_no_label0)
  show "get_reason k (parse_evaluation t) = None"
    using assms by (simp add: get_parse group1_def reason_pattern_def search_no_label)
  show "get_score k (gemini_parse_evaluation t) = None"
    using assms by (simp add: get_gemini_parse group1_def gemini_score_pattern_def search_no_label0)
  show "get_reason k (gemini_parse_evaluation t) = None"
    using assms by (cases k)
      (simp_all add: get_gemini_parse group1_def gemini_reason_pattern_def gemini_last_reason_pattern_def
         search_no_label0)
qed

lemma parsed_eq:
  "(\<And>k. get_score k e = get_score k e' \<and> get_reason k e = get_reason k e') \<Longrightarrow> e = (e' :: 's parsed)"
proof -
  assume a: "\<And>k. get_score k e = get_score k e' \<and> get_reason k e = get_reason k e'"
  from a [of Authenticity] a [of Sensitivity] a [of Harmony] show ?thesis
    by (cases e, cases e') simp
qed

lemma get_null [simp]: "get_score k null_parsed = None" "get_reason k null_parsed = None"
  by (cases k; simp add: null_parsed_def)+

lemma no_labels_null:
  assumes "\<forall>k. \<not> ci_occurs (label_of k) t"
  shows "parse_evaluation t = null_parsed" "gemini_parse_evaluation t = null_parsed"
  using assms by (auto intro!: parsed_eq simp: absent_label)

text \<open>
  C6, as amended. A text that contains none of the three labels, in any letter case, parses
  to six null fields, with either parser. For a text that has one criterion in the
  documented form (label, colon, whitespace, digits, later \<open>Reason:\<close>) and contains neither
  of the other two labels: the Ollama and GPT-4o-mini parser gives that criterion a score
  and a reason and leaves the other four fields null; the Gemini parser gives it a score,
  leaves the other four fields null, and gives it a reason only when it is harmony, since
  its first two reason patterns end at the next label.
\<close>

theorem graceful_degradation:
  "((\<forall>k. \<not> ci_occurs (label_of k) t) \<longrightarrow>
       parse_evaluation t = null_parsed \<and> gemini_parse_evaluation t = null_parsed)
   \<and> (t = pre @ label_of k @ '':'' @ sp @ ds @ mid @ ''Reason:'' @ tail
        \<and> list_all is_space sp \<and> digits ds \<and> (\<forall>k'. k' \<noteq> k \<longrightarrow> \<not> ci_occurs (label_of k') t) \<longrightarrow>
       get_score k (parse_evaluation t) \<noteq> None \<and> get_reason k (parse_evaluation t) \<noteq> None
       \<and> (\<forall>k'. k' \<noteq> k \<longrightarrow> get_score k' (parse_evaluation t) = None
                           \<and> get_reason k' (parse_evaluation t) = None)
       \<and> get_score k (gemini_parse_evaluation t) \<noteq> None
       \<and> (get_reason k (gemini_parse_evaluation t) \<noteq> None \<longleftrightarrow> k = Harmony)
       \<and> (\<forall>k'. k' \<noteq> k \<longrightarrow> get_score k' (gemini_parse_evaluation t) = None
                           \<and> get_reason k' (gemini_parse_evaluation t) = None))"
proof (intro conjI impI)
  assume "\<forall>k. \<not> ci_occurs (label_of k) t"
  then show "parse_evaluation t = null_parsed" "gemini_parse_evaluation t = null_parsed"
    by (simp_all add: no_labels_null)
next
  assume h: "t = pre @ label_of k @ '':'' @ sp @ ds @ mid @ ''Reason:'' @ tail
        \<and> list_all is_space sp \<and> digits ds \<and> (\<forall>k'. k' \<noteq> k \<longrightarrow> \<not> ci_occurs (label_of k') t)"
  then have sp: "\<forall>x \<in> set sp. is_space x" and ds: "digits ds"
    and others: "\<And>k'. k' \<noteq> k \<Longrightarrow> \<not> ci_occurs (label_of k') t"
    by (auto simp: list_all_iff)
  let ?s = "label_of k @ CHR '':'' # sp @ ds @ mid @ ''Reason'' @ CHR '':'' # tail"
  from h have "t = pre @ ?s" by simp
  then have suf: "suffix ?s t" by (simp add: suffix_def)
  have "search (score_pattern (label_of k)) t \<noteq> None"
    using suf by (rule search_SomeI) (rule score_pattern_ok [OF sp ds])
  then show "get_score k (parse_evaluation t) \<noteq> None"
    unfolding get_parse by (rule score_field_some)
  have "rmatch (reason_pattern (label_of k) (ending k)) accept
      (label_of k @ CHR '':'' # (sp @ ds @ mid) @ ''Reason'' @ CHR '':'' # tail) None \<noteq> None"
    by (rule reason_pattern_ok)
  then have "search (reason_pattern (label_of k) (ending k)) t \<noteq> None"
    using suf by (intro search_SomeI [of ?s]) simp_all
  then show "get_reason k (parse_evaluation t) \<noteq> None"
    unfolding get_parse by (rule reason_group_some)
  show "\<forall>k'. k' \<noteq> k \<longrightarrow> get_score k' (parse_evaluation t) = None
                           \<and> get_reason k' (parse_evaluation t) = None"
    using others by (simp add: absent_label)
  have "search (gemini_score_pattern (label_of k)) t \<noteq> None"
    using suf by (rule search_SomeI) (rule gemini_score_pattern_ok [OF sp ds])
  then show "get_score k (gemini_parse_evaluation t) \<noteq> None"
    unfolding get_gemini_parse by (rule gemini_score_group_some)
  show "\<forall>k'. k' \<noteq> k \<longrightarrow> get_score k' (gemini_parse_evaluation t) = None
                           \<and> get_reason k' (gemini_parse_evaluation t) = None"
    using others by (simp add: absent_label)
  show "get_reason k (gemini_parse_evaluation t) \<noteq> None \<longleftrightarrow> k = Harmony"
  proof (cases k)
    case Authenticity
    have "\<not> ci_occurs ''SENSITIVITY'' t" using others [of Sensitivity] Authenticity by simp
    then have "search (gemini_reason_pattern ''AUTHENTICITY'' ''SENSITIVITY'') t = None"
      using gemini_reason_needs_next [of "''AUTHENTICITY''" "''SENSITIVITY''" t]
      by (cases "search (gemini_reason_pattern ''AUTHENTICITY'' ''SENSITIVITY'') t") auto
    with Authenticity show ?thesis by (simp add: get_gemini_parse group1_def)
  next
    case Sensitivity
    have "\<not> ci_occurs ''HARMONY'' t" using others [of Harmony] Sensitivity by simp
    then have "search (gemini_reason_pattern ''SENSITIVITY'' ''HARMONY'') t = None"
      using gemini_reason_needs_next [of "''SENSITIVITY''" "''HARMONY''" t]
      by (cases "search (gemini_reason_pattern ''SENSITIVITY'' ''HARMONY'') t") auto
    with Sensitivity show ?thesis by (simp add: get_gemini_parse group1_def)
  next
    case Harmony
    have "rmatch (gemini_last_reason_pattern ''HARMONY'') accept
      (''HARMONY'' @ (CHR '':'' # sp @ ds @ mid) @ ''Reason'' @ CHR '':'' # tail) None \<noteq> None"
      by (rule gemini_last_reason_ok)
    then have "search (gemini_last_reason_pattern ''HARMONY'') t \<noteq> None"
      using suf Harmony by (intro search_SomeI [of ?s]) simp_all
    then have "group1 (gemini_last_reason_pattern ''HARMONY'') t \<noteq> None"
      by (rule gemini_last_group_some)
    with Harmony show ?thesis by (simp add: get_gemini_parse)
  qed
qed

lemma rate_limited_no_label: "\<not> ci_occurs (label_of k) ''Error: rate limited''"
proof -
  have "\<not> ci_occurs ''AUTHENTICITY'' ''Error: rate limited''" by code_simp
  moreover have "\<not> ci_occurs ''SENSITIVITY'' ''Error: rate limited''" by code_simp
  moreover have "\<not> ci_occurs ''HARMONY'' ''Error: rate limited''" by code_simp
  ultimately show ?thesis by (cases k) simp_all
qed

lemma one_label_text_others: "k' \<noteq> Sensitivity \<Longrightarrow> \<not> ci_occurs (label_of k') one_label_text"
proof -
  have "\<not> ci_occurs ''AUTHENTICITY'' one_label_text" by code_simp
  moreover have "\<not> ci_occurs ''HARMONY'' one_label_text" by code_simp
  moreover assume "k' \<noteq> Sensitivity"
  ultimately show ?thesis by (cases k') simp_all
qed

theorem graceful_degradation_witness:
  "(\<forall>k. \<not> ci_occurs (label_of k) ''Error: rate limited'')
   \<and> parse_evaluation ''Error: rate limited'' = null_parsed
   \<and> gemini_parse_evaluation ''Error: rate limited'' = null_parsed
   \<and> one_label_text = [] @ label_of Sensitivity @ '':'' @ '' '' @ ''2'' @ [CHR 0x0A] @ ''Reason:'' @ '' weak.''
   \<and> list_all is_space '' '' \<and> digits ''2''
   \<and> \<not> ci_occurs (label_of Authenticity) one_label_text
   \<and> \<not> ci_occurs (label_of Harmony) one_label_text
   \<and> get_score Sensitivity (parse_evaluation one_label_text) \<noteq> None
   \<and> get_reason Sensitivity (parse_evaluation one_label_text) \<noteq> None
   \<and> get_score Authenticity (parse_evaluation one_label_text) = None
   \<and> get_reason Harmony (gemini_parse_evaluation one_label_text) = None
   \<and> get_reason Sensitivity (gemini_parse_evaluation one_label_text) = None"
proof -
  have a: "\<forall>k. \<not> ci_occurs (label_of k) ''Error: rate limited''"
    by (rule allI) (rule rate_limited_no_label)
  have b: "one_label_text = [] @ label_of Sensitivity @ '':'' @ '' '' @ ''2'' @ [CHR 0x0A] @ ''Reason:'' @ '' weak.''"
    by (simp add: one_label_text_def)
  have c: "list_all is_space '' ''" "digits ''2''" by (simp_all add: is_space_def digits_def is_digit_def)
  have d: "\<forall>k'. k' \<noteq> Sensitivity \<longrightarrow> \<not> ci_occurs (label_of k') one_label_text"
    by (simp add: one_label_text_others)
  from graceful_degradation [of "''Error: rate limited''"] a
  have 1: "parse_evaluation ''Error: rate limited'' = null_parsed
           \<and> gemini_parse_evaluation ''Error: rate limited'' = null_parsed" by blast
  from graceful_degradation [of one_label_text "[]" Sensitivity "'' ''" "''2''" "[CHR 0x0A]" "'' weak.''"] b c d
  have 2: "get_score Sensitivity (parse_evaluation one_label_text) \<noteq> None
       \<and> get_reason Sensitivity (parse_evaluation one_label_text) \<noteq> None
       \<and> (\<forall>k'. k' \<noteq> Sensitivity \<longrightarrow> get_score k' (parse_evaluation one_label_text) = None
                           \<and> get_reason k' (parse_evaluation one_label_text) = None)
       \<and> get_score Sensitivity (gemini_parse_evaluation one_label_text) \<noteq> None
       \<and> (get_reason Sensitivity (gemini_parse_evaluation one_label_text) \<noteq> None \<longleftrightarrow> Sensitivity = Harmony)
       \<and> (\<forall>k'. k' \<noteq> Sensitivity \<longrightarrow> get_score k' (gemini_parse_evaluation one_label_text) = None
                           \<and> get_reason k' (gemini_parse_evaluation one_label_text) = None)"
    by blast
  from 2 have 3: "get_score Authenticity (parse_evaluation one_label_text) = None"
    "get_reason Harmony (gemini_parse_evaluation one_label_text) = None"
    "get_reason Sensitivity (gemini_parse_evaluation one_label_text) = None"
    by auto
  from d have d': "\<not> ci_occurs (label_of Authenticity) one_label_text"
    "\<not> ci_occurs (label_of Harmony) one_label_text" by auto
  from a b c d' 1 2 3 show ?thesis by blast
qed

text \<open>
  C6, as stated, fails for the Gemini parser: with authenticity as the only labelled
  criterion, its reason is null.
\<close>

theorem gemini_reason_waits_for_next_label:
  "authenticity_score (gemini_parse_evaluation (''AUTHENTICITY: 5'' @ [CHR 0x0A] @ ''Reason: Good.'')) = Some ''5''
   \<and> authenticity_reason (gemini_parse_evaluation (''AUTHENTICITY: 5'' @ [CHR 0x0A] @ ''Reason: Good.'')) = None"
  by code_simp

lemma iteration_recorded:
  "calls_recorded llm st \<Longrightarrow> calls_recorded llm (evaluate_iteration llm row m st i)"
  by (auto simp: calls_recorded_def evaluate_iteration_def Let_def nth_append recorded_def less_Suc_eq)

lemma model_recorded: "calls_recorded llm st \<Longrightarrow> calls_recorded llm (evaluate_model llm row st m)"
  unfolding evaluate_model_def
  by (rule foldl_invariant [where I = "calls_recorded llm"]) (simp_all add: iteration_recorded)

lemma row_recorded: "calls_recorded llm st \<Longrightarrow> calls_recorded llm (evaluate_row models llm st row)"
  unfolding evaluate_row_def
  by (rule foldl_invariant [where I = "calls_recorded llm"]) (simp_all add: model_recorded)

lemma recipes_recorded:
  "n < length (evaluate_recipes models llm rows) \<Longrightarrow> recorded llm n (evaluate_recipes models llm rows ! n)"
proof -
  have "calls_recorded llm (foldl (evaluate_row models llm) (0, []) rows)"
    by (rule foldl_invariant [where I = "calls_recorded llm"])
       (simp add: row_recorded, simp add: calls_recorded_def)
  then show "n < length (evaluate_recipes models llm rows) \<Longrightarrow> ?thesis"
    by (simp add: calls_recorded_def evaluate_recipes_def)
qed

lemma recipes_length: "length (evaluate_recipes models llm rows) = length rows * length models * 5"
proof -
  have "length (map triple (evaluate_recipes models llm rows)) = length rows * (length models * 5)"
    unfolding recipes_triples
    by (rule length_concat_const) (simp add: length_concat_const)
  then show ?thesis by simp
qed

lemma error_text_no_label:
  assumes "\<not> ci_occurs (label_of k) msg"
  shows "\<not> ci_occurs (label_of k) (''Error: '' @ msg)"
    and "\<not> ci_occurs (label_of k) (''Error in evaluation: '' @ msg)"
  using assms by (cases k; simp add: lower_def)+

lemma validate_null: "validate_and_fix_scores null_parsed = null_parsed"
  by (simp add: validate_fields fixed_def needs_fix_def rescue_def null_parsed_def)

text \<open>
  C7, as amended. Whatever the collaborator does, raising included, the Ollama evaluator
  appends a record for every triple, and the record of call \<open>n\<close> holds the text that
  \<open>evaluate_recipe\<close> returned for that call together with its parsed and validated
  fields. When the call raises, that text is the error prefix followed by the exception's
  message. When the message contains none of the three labels, the error text parses to six
  null fields, before and after validation, and so does the Gemini error text.
\<close>

theorem failed_call_is_absorbed:
  "length (evaluate_recipes models llm rows) = length rows * length models * 5
   \<and> (n < length (evaluate_recipes models llm rows) \<longrightarrow>
        recorded llm n (evaluate_recipes models llm rows ! n))
   \<and> (llm n m row = Inl e \<longrightarrow> evaluate_recipe llm n m row = ''Error: '' @ message e)
   \<and> (llm n ''gemini-1.5-flash'' row = Inl e \<longrightarrow>
        gemini_evaluate_recipe llm n row = ''Error in evaluation: '' @ message e)
   \<and> ((\<forall>k. \<not> ci_occurs (label_of k) msg) \<longrightarrow>
        parse_evaluation (''Error: '' @ msg) = null_parsed
        \<and> validate_and_fix_scores (parse_evaluation (''Error: '' @ msg)) = null_parsed
        \<and> gemini_parse_evaluation (''Error in evaluation: '' @ msg) = null_parsed)"
proof -
  have "parse_evaluation (''Error: '' @ msg) = null_parsed
        \<and> validate_and_fix_scores (parse_evaluation (''Error: '' @ msg)) = null_parsed
        \<and> gemini_parse_evaluation (''Error in evaluation: '' @ msg) = null_parsed"
    if h: "\<forall>k. \<not> ci_occurs (label_of k) msg"
  proof -
    from h have "\<forall>k. \<not> ci_occurs (label_of k) (''Error: '' @ msg)"
      and "\<forall>k. \<not> ci_occurs (label_of k) (''Error in evaluation: '' @ msg)"
      using error_text_no_label by blast+
    then show ?thesis using no_labels_null validate_null by metis
  qed
  then show ?thesis
    using recipes_length [of models llm rows] recipes_recorded [of n models llm rows]
    by (auto simp: evaluate_recipe_def gemini_evaluate_recipe_def)
qed

theorem failed_call_is_absorbed_witness:
  "length (evaluate_recipes [''gemma2:2b''] (always_raises ''rate limited'') [sample_row]) = 5
   \<and> recorded (always_raises ''rate limited'') 0
        (evaluate_recipes [''gemma2:2b''] (always_raises ''rate limited'') [sample_row] ! 0)
   \<and> always_raises ''rate limited'' 0 ''gemma2:2b'' sample_row = Inl (OtherError ''rate limited'')
   \<and> evaluate_recipe (always_raises ''rate limited'') 0 ''gemma2:2b'' sample_row
        = ''Error: '' @ message (OtherError ''rate limited'')
   \<and> (\<forall>k. \<not> ci_occurs (label_of k) ''rate limited'')
   \<and> parse_evaluation (''Error: '' @ ''rate limited'') = null_parsed
   \<and> validate_and_fix_scores (parse_evaluation (''Error: '' @ ''rate limited'')) = null_parsed"
proof -
  let ?rs = "evaluate_recipes [''gemma2:2b''] (always_raises ''rate limited'') [sample_row]"
  note t = failed_call_is_absorbed [of "[''gemma2:2b'']" "always_raises ''rate limited''" "[sample_row]"
      0 "''gemma2:2b''" sample_row "OtherError ''rate limited''" "''rate limited''"]
  have a: "always_raises ''rate limited'' 0 ''gemma2:2b'' sample_row = Inl (OtherError ''rate limited'')"
    by (simp add: always_raises_def)
  have b: "\<not> ci_occurs (label_of k) ''rate limited''" for k
  proof -
    have "\<not> ci_occurs ''AUTHENTICITY'' ''rate limited''" by code_simp
    moreover have "\<not> ci_occurs ''SENSITIVITY'' ''rate limited''" by code_simp
    moreover have "\<not> ci_occurs ''HARMONY'' ''rate limited''" by code_simp
    ultimately show ?thesis by (cases k) simp_all
  qed
  then have b': "\<forall>k. \<not> ci_occurs (label_of k) ''rate limited''" by (rule allI)
  from t have "length ?rs = length [sample_row] * length [''gemma2:2b''] * 5" by blast
  then have l: "length ?rs = 5" by simp
  then have "0 < length ?rs" by simp
  with t have r: "recorded (always_raises ''rate limited'') 0 (?rs ! 0)" by blast
  from t a have e: "evaluate_recipe (always_raises ''rate limited'') 0 ''gemma2:2b'' sample_row
        = ''Error: '' @ message (OtherError ''rate limited'')"
    by blast
  from t b' have p: "parse_evaluation (''Error: '' @ ''rate limited'') = null_parsed
      \<and> validate_and_fix_scores (parse_evaluation (''Error: '' @ ''rate limited'')) = null_parsed"
    by blast
  from l r a e b' p show ?thesis by blast
qed

text \<open>
  C7, as stated, fails when the exception's message itself contains a labelled rating: the
  error text is parsed like any other text.
\<close>

theorem error_message_with_label_is_parsed:
  "map (harmony_score \<circ> scores)
     (evaluate_recipes [''gemma2:2b''] (always_raises ''unexpected reply HARMONY: 3'') [sample_row])
   = [Some (Fin 3), Some (Fin 3), Some (Fin 3), Some (Fin 3), Some (Fin 3)]"
  by code_simp

subsection \<open>Replies in the format of the prompt\<close>


lemma search_skip:
  "\<not> starts_in l p s \<Longrightarrow> search (Seq (Str (l @ m)) r) (p @ s) = search (Seq (Str (l @ m)) r) s"
  by (induction p) (auto dest: ci_prefix_append)

lemma search_skip0:
  "\<not> starts_in l p s \<Longrightarrow> search (Seq (Str l) r) (p @ s) = search (Seq (Str l) r) s"
  using search_skip [of l p s "[]" r] by simp




lemma lower_newline [simp]: "lower x = CHR 0x0A \<longleftrightarrow> x = CHR 0x0A"
  by (auto simp: lower_def split: option.splits if_splits)

lemma lower_of_newline [simp]: "lower (CHR 0x0A) = CHR 0x0A"
  by (simp add: lower_def)

















lemma digit_space_plain: "is_digit x \<Longrightarrow> plain x" "is_space x \<Longrightarrow> plain x"
  by (simp_all add: plain_def)














lemma newline_match [simp]: "cc_match (Chr (CHR 0x0A)) x \<longleftrightarrow> x = CHR 0x0A"
  by simp

















































end
